theory Spec2Isabelle
  imports Complex_Main "HOL-Library.Word"
begin

unbundle bit_operations_syntax

text \<open>
  A model of \<open>src/PSON/Encoder.ts\<close>, the PSON encoder: the constructor, \<open>encode\<close> and
  \<open>_encodeValue\<close>. The encoder writes to a byte sink of the bytebuffer library and reads its
  tag bytes from module \<open>./T\<close>; neither is among the sources. The sink is modelled by the
  calls made on it, the tag bytes are parameters. The definitions come first, the facts about
  them after.
\<close>

section \<open>The values the encoder receives\<close>

text \<open>
  \<open>Encoder._encodeValue\<close> dispatches on \<open>val === null\<close>, on \<open>typeof val\<close> and, for
  \<open>typeof val === 'object'\<close>, on \<open>Array.isArray\<close>, \<open>instanceof Long\<close> and on whether
  \<open>ByteBuffer.wrap(val)\<close> throws. The datatype below has one constructor for each way the
  dispatch can go.

  A JavaScript Number is an IEEE-754 double. The finite doubles are a subset of the reals; the
  model takes every real as a finite Number, so a theorem quantified over \<open>number\<close> covers every
  double, and each concrete input used below is an exactly representable double.
  \<open>-0\<close> is identified with \<open>0\<close> (they are \<open>===\<close>, have the same decimal string, and the same
  32-bit integer conversion).
\<close>

datatype number = Finite real | NaN | PosInfinity | NegInfinity

text \<open>
  \<^item> \<open>JFunction src\<close>: a function whose \<open>toString()\<close> is \<open>src\<close>.
  \<^item> \<open>JSymbol\<close>, \<open>JBigInt\<close>: the two remaining results of \<open>typeof\<close>, for which the
    \<open>switch\<close> has no case.
  \<^item> \<open>JArray vs\<close>: an array; a hole reads as \<open>undefined\<close>, so it is a \<open>JUndefined\<close> element.
  \<^item> \<open>JLong\<close>: an instance of \<open>Long\<close>.
  \<^item> \<open>JObject props other\<close>: any other object. \<open>props\<close> are its own enumerable properties in
    the order of \<open>Object.keys\<close>. The keys of one object are pairwise distinct; the loops of the
    model walk the list of pairs, which for distinct keys is the walk over \<open>keys[i]\<close> with
    \<open>val[keys[i]]\<close>. Line 154 reads \<open>val._PSON_EXCL_\<close>, an ordinary property read, which also
    finds a property that \<open>Object.keys\<close> does not list: an own property that is not enumerable,
    or one on the prototype chain. \<open>other\<close> is the value such a read finds when the key is not
    listed, \<open>JUndefined\<close> when there is none (as for an object literal).
  \<^item> \<open>JBinary bs wprops wother\<close>: an object that \<open>ByteBuffer.wrap\<close> accepts; \<open>bs\<close> are the
    bytes of the wrapper it returns, and \<open>wprops\<close> and \<open>wother\<close> describe the wrapper as
    \<open>props\<close> and \<open>other\<close> describe an object (they are read only when a write inside the
    \<open>try\<close> block throws, because the \<open>catch\<close> block then runs on the reassigned \<open>val\<close>).
\<close>

datatype json =
    JNull
  | JUndefined
  | JBoolean bool
  | JNumber number
  | JString string
  | JFunction string
  | JSymbol
  | JBigInt int
  | JArray "json list"
  | JLong "64 word"
  | JBinary "nat list" "(string \<times> json) list" json
  | JObject "(string \<times> json) list" json

text \<open>\<open>!!x\<close>: JavaScript truthiness. Every object is truthy.\<close>

fun truthy :: "json \<Rightarrow> bool" where
  "truthy JNull = False"
| "truthy JUndefined = False"
| "truthy (JBoolean b) = b"
| "truthy (JNumber n) = (n \<noteq> NaN \<and> n \<noteq> Finite 0)"
| "truthy (JString s) = (s \<noteq> [])"
| "truthy (JBigInt i) = (i \<noteq> 0)"
| "truthy _ = True"

text \<open>
  \<open>val._PSON_EXCL_\<close> (line 154): the own enumerable property of that name if the object has
  one, and otherwise whatever else the read finds.
\<close>

definition readSentinel :: "(string \<times> json) list \<Rightarrow> json \<Rightarrow> json" where
  "readSentinel props other =
     (case map_of props ''_PSON_EXCL_'' of None \<Rightarrow> other | Some v \<Rightarrow> v)"

section \<open>Numbers: \<open>===\<close>, \<open>parseInt\<close> and the 32-bit conversion\<close>

text \<open>\<open>a === b\<close> on Numbers: \<open>NaN\<close> is not equal to itself.\<close>

definition strictEq :: "number \<Rightarrow> number \<Rightarrow> bool" where
  "strictEq a b = (a \<noteq> NaN \<and> a = b)"

text \<open>Truncation toward zero.\<close>

definition trunc :: "real \<Rightarrow> int" where
  "trunc r = (if 0 \<le> r then \<lfloor>r\<rfloor> else \<lceil>r\<rceil>)"

text \<open>The first decimal digit of a natural number, and the number of its decimal digits.\<close>

fun leading :: "nat \<Rightarrow> nat" where
  "leading n = (if n < 10 then n else leading (n div 10))"

fun digits :: "nat \<Rightarrow> nat" where
  "digits n = (if n < 10 then 1 else Suc (digits (n div 10)))"

declare leading.simps [simp del] digits.simps [simp del]

text \<open>The first significant decimal digit of a positive real.\<close>

definition leadingDigit :: "real \<Rightarrow> int" where
  "leadingDigit a =
     (if 1 \<le> a then int (leading (nat \<lfloor>a\<rfloor>))
      else int (leading (nat \<lfloor>a * 10 ^ digits (nat \<lfloor>1 / a\<rfloor>)\<rfloor>)))"

text \<open>
  \<open>parseInt(val)\<close> on a Number (line 99). \<open>parseInt\<close> converts its argument to a string and
  parses the longest prefix that is a decimal integer. \<open>Number.prototype.toString\<close> writes plain
  decimal notation for \<open>0\<close> and for magnitudes from \<open>1e-6\<close> up to, but not including, \<open>1e21\<close>;
  the prefix is then the integer part, so the result is the value truncated toward zero. Outside
  that range the string is in exponent notation (\<open>1.1805916207174113e+21\<close>, \<open>5e-7\<close>): the
  prefix ends at the decimal point or at the \<open>e\<close>, so the result is the signed first digit.
  \<open>NaN\<close>, \<open>Infinity\<close> and \<open>-Infinity\<close> give \<open>NaN\<close>.

  The digit is taken from the exact value here; the shortest decimal string of a double may
  round it up by one, and the double next to \<open>1e-6\<close> lies on the side its string says. The
  encoder only compares the result with \<open>val\<close>, and neither changes that comparison.
\<close>

fun parseInt :: "number \<Rightarrow> number" where
  "parseInt (Finite r) =
     (if r = 0 \<or> (1 / 10 ^ 6 \<le> \<bar>r\<bar> \<and> \<bar>r\<bar> < 10 ^ 21) then Finite (of_int (trunc r))
      else Finite (of_int ((if r < 0 then - 1 else 1) * leadingDigit \<bar>r\<bar>)))"
| "parseInt NaN = NaN"
| "parseInt PosInfinity = NaN"
| "parseInt NegInfinity = NaN"

text \<open>\<open>n |= 0\<close>: the conversion to a signed 32-bit integer (truncate, then wrap modulo \<open>2^32\<close>;
  \<open>NaN\<close> and the infinities give \<open>0\<close>).\<close>

definition ToInt32 :: "number \<Rightarrow> 32 word" where
  "ToInt32 n = (case n of Finite r \<Rightarrow> word_of_int (trunc r) | _ \<Rightarrow> 0)"

text \<open>
  Modelled from the spec: \<open>ByteBuffer.zigZagEncode32\<close>, of the bytebuffer library the encoder
  imports (spec 4.1 step 3: "the zigzag encoding of the 32-bit signed integer"; glossary:
  "a signed-to-unsigned integer mapping that interleaves positive and negative values"). The
  library computes \<open>(((n |= 0) << 1) ^ (n >> 31)) >>> 0\<close>.
\<close>

definition zigZagEncode32 :: "number \<Rightarrow> nat" where
  "zigZagEncode32 n = (let w = ToInt32 n in unat (push_bit 1 w XOR signed_drop_bit 31 w))"

section \<open>The tag bytes\<close>

text \<open>
  Module \<open>./T\<close>, from which \<open>Encoder.ts\<close> imports the tag constants, is not among the sources.
  The constants are parameters of the model: a record with one field for each imported name
  (\<open>MAX\<close> is written \<open>MAX_T\<close>).
\<close>

record tags =
  MAX_T :: nat
  NULL :: nat
  TRUE :: nat
  FALSE :: nat
  EOBJECT :: nat
  EARRAY :: nat
  ESTRING :: nat
  OBJECT :: nat
  ARRAY :: nat
  INTEGER :: nat
  LONG :: nat
  FLOAT :: nat
  DOUBLE :: nat
  STRING :: nat
  STRING_ADD :: nat
  STRING_GET :: nat
  BINARY :: nat

text \<open>
  The second parameter is the float conversion test of lines 109-110:
  \<open>fbuf.writeFloat32(val, 0)\<close> followed by \<open>fbuf.readFloat32(0)\<close>, that is, \<open>val\<close> rounded to
  IEEE-754 single precision and widened again. The scratch buffer is overwritten before each
  read, so the test is a function of \<open>val\<close> alone.
\<close>

record platform = tags +
  fround :: "number \<Rightarrow> number"

section \<open>The byte sink\<close>

text \<open>
  The sink is a \<open>ByteBuffer\<close> of the bytebuffer library. The model records the calls the
  encoder makes on it, in order, with their arguments; a float write also records the byte
  order in force, which decides the layout of its bytes. A call may throw: \<open>refuses\<close> says,
  from the calls accepted so far and the next one, whether the sink throws on it. A refused
  call leaves the sink unchanged.
\<close>

datatype sink_op =
    WriteUint8 nat
  | WriteVarint32 nat
  | WriteVarint32ZigZag number
  | WriteVarint64ZigZag "64 word"
  | WriteFloat32 bool number
  | WriteFloat64 bool number
  | WriteVString string
  | Append "nat list"

text \<open>The exceptions: one thrown by the sink, and the \<open>TypeError\<close> of a call of something
  that is not a function.\<close>

datatype error = SinkError sink_op | TypeError

record ByteBuffer =
  written :: "sink_op list"
  littleEndian :: bool
  flipped :: bool
  refuses :: "sink_op list \<Rightarrow> sink_op \<Rightarrow> bool"

text \<open>\<open>new ByteBuffer()\<close>: empty, big-endian, and it grows on demand.\<close>

definition new_ByteBuffer :: ByteBuffer where
  "new_ByteBuffer =
     \<lparr>written = [], littleEndian = False, flipped = False, refuses = (\<lambda>h c. False)\<rparr>"

definition LE :: "ByteBuffer \<Rightarrow> ByteBuffer" where
  "LE buf = buf\<lparr>littleEndian := True\<rparr>"

definition flip :: "ByteBuffer \<Rightarrow> ByteBuffer" where
  "flip buf = buf\<lparr>flipped := True\<rparr>"

section \<open>The encoder\<close>

text \<open>
  The fields of class \<open>Encoder\<close>; \<open>next\<close> is written \<open>next_index\<close>. \<open>dict\<close> holds the own
  properties of the dictionary object \<open>this.dict\<close>, which is created as \<open>{}\<close>.
\<close>

record Encoder =
  dict :: "string \<rightharpoonup> nat"
  next_index :: nat
  progressive :: bool

text \<open>
  \<open>this.dict[key] = n\<close>. The dictionary is a plain object, so the assignment creates or
  overwrites an own property, except for the key \<open>__proto__\<close>: that name is an accessor of
  \<open>Object.prototype\<close> whose setter ignores a number, and nothing is stored.
\<close>

definition store :: "(string \<rightharpoonup> nat) \<Rightarrow> string \<Rightarrow> nat \<Rightarrow> (string \<rightharpoonup> nat)" where
  "store d key n = (if key = ''__proto__'' then d else d(key \<mapsto> n))"

text \<open>
  \<open>this.dict.hasOwnProperty(key)\<close>, followed where it is true by the read \<open>this.dict[key]\<close>
  (lines 89-91 and 158-160): \<open>Some i\<close> for an own property with value \<open>i\<close>, \<open>None\<close> when the
  dictionary has no own property \<open>key\<close>. The method is found on \<open>Object.prototype\<close> unless the
  dictionary has an own property \<open>hasOwnProperty\<close>; then the name reads as the index stored
  there, and calling it throws a \<open>TypeError\<close>.
\<close>

definition lookup :: "Encoder \<Rightarrow> string \<Rightarrow> error + nat option" where
  "lookup e key =
     (if dict e ''hasOwnProperty'' \<noteq> None then Inl TypeError else Inr (dict e key))"

text \<open>
  The constructor (lines 38-44):
  \<^verbatim>\<open>while (this.next < dict.length) { this.dict[dict[this.next]] = this.next++; }\<close>
  The key is read at the old counter, which is also the value stored.
\<close>

function seedLoop :: "string list \<Rightarrow> Encoder \<Rightarrow> Encoder" where
  "seedLoop ds e =
     (if next_index e < length ds
      then seedLoop ds (e\<lparr>dict := store (dict e) (ds ! next_index e) (next_index e),
                           next_index := next_index e + 1\<rparr>)
      else e)"
  by pat_completeness auto
termination
  by (relation "measure (\<lambda>(ds, e). length ds - next_index e)") auto

declare seedLoop.simps [simp del]

definition new_Encoder :: "string list \<Rightarrow> bool \<Rightarrow> Encoder" where
  "new_Encoder ds prog = seedLoop ds \<lparr>dict = Map.empty, next_index = 0, progressive = prog\<rparr>"

subsection \<open>Actions on the encoder and the sink\<close>

text \<open>
  \<open>_encodeValue\<close> mutates the encoder (\<open>this.dict\<close>, \<open>this.next\<close>) and the sink, and an
  exception leaves both as they are at the throw. An action takes the pair of them and returns
  the outcome (\<open>Inl\<close> the exception, \<open>Inr ()\<close> a normal return) with the pair afterwards.
\<close>

type_synonym state = "Encoder \<times> ByteBuffer"
type_synonym action = "state \<Rightarrow> (error + unit) \<times> state"

definition skip :: action where
  "skip = (\<lambda>st. (Inr (), st))"

definition andThen :: "action \<Rightarrow> action \<Rightarrow> action" where
  "andThen m k = (\<lambda>st. case m st of (Inl e, st') \<Rightarrow> (Inl e, st') | (Inr u, st') \<Rightarrow> k st')"

definition tryCatch :: "action \<Rightarrow> action \<Rightarrow> action" where
  "tryCatch m h = (\<lambda>st. case m st of (Inl e, st') \<Rightarrow> h st' | (Inr u, st') \<Rightarrow> (Inr u, st'))"

definition writeOp :: "sink_op \<Rightarrow> action" where
  "writeOp c = (\<lambda>(enc, buf).
     if refuses buf (written buf) c then (Inl (SinkError c), (enc, buf))
     else (Inr (), (enc, buf\<lparr>written := written buf @ [c]\<rparr>)))"

definition writeUint8 :: "nat \<Rightarrow> action" where
  "writeUint8 b = writeOp (WriteUint8 b)"

definition writeVarint32 :: "nat \<Rightarrow> action" where
  "writeVarint32 n = writeOp (WriteVarint32 n)"

definition writeVarint32ZigZag :: "number \<Rightarrow> action" where
  "writeVarint32ZigZag v = writeOp (WriteVarint32ZigZag v)"

definition writeVarint64ZigZag :: "64 word \<Rightarrow> action" where
  "writeVarint64ZigZag l = writeOp (WriteVarint64ZigZag l)"

definition writeFloat32 :: "number \<Rightarrow> action" where
  "writeFloat32 v = (\<lambda>(enc, buf). writeOp (WriteFloat32 (littleEndian buf) v) (enc, buf))"

definition writeFloat64 :: "number \<Rightarrow> action" where
  "writeFloat64 v = (\<lambda>(enc, buf). writeOp (WriteFloat64 (littleEndian buf) v) (enc, buf))"

definition writeVString :: "string \<Rightarrow> action" where
  "writeVString s = writeOp (WriteVString s)"

definition append_bytes :: "nat list \<Rightarrow> action" where
  "append_bytes bs = writeOp (Append bs)"

subsection \<open>\<open>_encodeValue\<close>\<close>

text \<open>Lines 86-96, the \<open>'string'\<close> case (a function arrives here as its source text).\<close>

definition encodeString :: "platform \<Rightarrow> string \<Rightarrow> action" where
  "encodeString P val = (\<lambda>(enc, buf).
     if length val = 0 then writeUint8 (ESTRING P) (enc, buf)
     else (case lookup enc val of
             Inl e \<Rightarrow> (Inl e, (enc, buf))
           | Inr (Some i) \<Rightarrow> andThen (writeUint8 (STRING_GET P)) (writeVarint32 i) (enc, buf)
           | Inr None \<Rightarrow> andThen (writeUint8 (STRING P)) (writeVString val) (enc, buf)))"

text \<open>Lines 99-117, the \<open>'number'\<close> case.\<close>

definition encodeNumber :: "platform \<Rightarrow> number \<Rightarrow> action" where
  "encodeNumber P val =
     (let intVal = parseInt val in
      if strictEq val intVal then
        (let zzval = zigZagEncode32 val in
         if zzval \<le> MAX_T P then writeUint8 zzval
         else andThen (writeUint8 (INTEGER P)) (writeVarint32ZigZag val))
      else if strictEq val (fround P val)
        then andThen (writeUint8 (FLOAT P)) (writeFloat32 val)
        else andThen (writeUint8 (DOUBLE P)) (writeFloat64 val))"

text \<open>Lines 145-148: the number of keys whose value is not \<open>undefined\<close>.\<close>

fun countDefined :: "(string \<times> json) list \<Rightarrow> nat" where
  "countDefined [] = 0"
| "countDefined ((key, v) # ps) = (if v \<noteq> JUndefined then countDefined ps + 1 else countDefined ps)"

text \<open>
  Lines 158-171: the key of one pair. In the branch that grows the dictionary the assignment
  \<open>this.dict[key] = this.next++\<close> comes before the first write.
\<close>

definition encodeKey :: "platform \<Rightarrow> bool \<Rightarrow> string \<Rightarrow> action" where
  "encodeKey P excluded key = (\<lambda>(enc, buf).
     case lookup enc key of
       Inl e \<Rightarrow> (Inl e, (enc, buf))
     | Inr (Some i) \<Rightarrow> andThen (writeUint8 (STRING_GET P)) (writeVarint32 i) (enc, buf)
     | Inr None \<Rightarrow>
         if progressive enc \<and> \<not> excluded
         then andThen (writeUint8 (STRING_ADD P)) (writeVString key)
                (enc\<lparr>dict := store (dict enc) key (next_index enc),
                     next_index := next_index enc + 1\<rparr>,
                 buf)
         else andThen (writeUint8 (STRING P)) (writeVString key) (enc, buf))"

text \<open>
  \<open>_encodeValue\<close> (lines 77-183), with the loop over the elements of an array (lines 130-132),
  the body of the \<open>catch\<close> block (lines 144-174) and the loop over the keys of an object
  (lines 155-173) as functions of their own. For a value of type \<open>symbol\<close> or \<open>bigint\<close> no case
  of the \<open>switch\<close> matches and nothing is written.
\<close>

fun encodeValue :: "platform \<Rightarrow> json \<Rightarrow> bool \<Rightarrow> action"
  and encodeElements :: "platform \<Rightarrow> json list \<Rightarrow> action"
  and encodeObject :: "platform \<Rightarrow> (string \<times> json) list \<Rightarrow> json \<Rightarrow> bool \<Rightarrow> action"
  and encodeFields :: "platform \<Rightarrow> bool \<Rightarrow> (string \<times> json) list \<Rightarrow> action"
where
  "encodeValue P JNull excluded = writeUint8 (NULL P)"
| "encodeValue P (JFunction src) excluded = encodeString P src"
| "encodeValue P (JString s) excluded = encodeString P s"
| "encodeValue P (JNumber v) excluded = encodeNumber P v"
| "encodeValue P (JBoolean b) excluded = writeUint8 (if b then TRUE P else FALSE P)"
| "encodeValue P (JArray vs) excluded =
     (if length vs = 0 then writeUint8 (EARRAY P)
      else andThen (writeUint8 (ARRAY P))
             (andThen (writeVarint32 (length vs)) (encodeElements P vs)))"
| "encodeValue P (JLong l) excluded = andThen (writeUint8 (LONG P)) (writeVarint64ZigZag l)"
| "encodeValue P (JBinary bs wprops wother) excluded =
     tryCatch
       (andThen (writeUint8 (BINARY P)) (andThen (writeVarint32 (length bs)) (append_bytes bs)))
       (encodeObject P wprops wother excluded)"
| "encodeValue P (JObject props other) excluded = encodeObject P props other excluded"
| "encodeValue P JUndefined excluded = writeUint8 (NULL P)"
| "encodeValue P JSymbol excluded = skip"
| "encodeValue P (JBigInt i) excluded = skip"
| "encodeElements P [] = skip"
| "encodeElements P (v # vs) = andThen (encodeValue P v False) (encodeElements P vs)"
| "encodeObject P props other excluded =
     (let n = countDefined props in
      if n = 0 then writeUint8 (EOBJECT P)
      else andThen (writeUint8 (OBJECT P))
             (andThen (writeVarint32 n)
                (encodeFields P
                   (if \<not> excluded then truthy (readSentinel props other) else excluded)
                   props)))"
| "encodeFields P excluded [] = skip"
| "encodeFields P excluded ((key, v) # ps) =
     (if v = JUndefined then encodeFields P excluded ps
      else andThen (encodeKey P excluded key)
             (andThen (encodeValue P v False) (encodeFields P excluded ps)))"

subsection \<open>\<open>encode\<close>\<close>

text \<open>
  \<open>encode\<close> (lines 53-68). The result is the outcome together with the encoder and the
  buffer as the call leaves them: on a normal return the buffer is the one returned, on a throw
  it is the caller's buffer (or the one the call created) at the moment the exception leaves.
\<close>

definition encode :: "platform \<Rightarrow> json \<Rightarrow> ByteBuffer option \<Rightarrow> Encoder \<Rightarrow> (error + unit) \<times> state" where
  "encode P json bufArg enc =
     (let (buf, doFlip) = (case bufArg of None \<Rightarrow> (new_ByteBuffer, True) | Some b \<Rightarrow> (b, False));
          le = littleEndian buf
      in case encodeValue P json False (enc, LE buf) of
           (Inr u, (enc', buf')) \<Rightarrow>
             (let buf'' = buf'\<lparr>littleEndian := le\<rparr>
              in (Inr (), (enc', if doFlip then flip buf'' else buf'')))
         | (Inl e, (enc', buf')) \<Rightarrow> (Inl e, (enc', buf'\<lparr>littleEndian := le\<rparr>)))"

section \<open>An example platform\<close>

text \<open>
  Modelled from the spec: module \<open>./T\<close> is missing. Spec section 3 asks for a small-integer
  threshold and sixteen symbolic tags that collide neither with the small-integer range nor
  with each other. The table below is the one PSON publishes: threshold \<open>0xEF\<close>, tags \<open>0xF0\<close>
  to \<open>0xFF\<close>. It is used for the concrete inputs only; every general theorem is stated for
  an arbitrary platform.
\<close>

text \<open>
  The stand-in for the float conversion test agrees with single-precision rounding on the
  Numbers used as concrete inputs: the double nearest to \<open>0.1\<close> is
  \<open>3602879701896397 / 2^55\<close> and rounds to \<open>13421773 / 2^27\<close>; \<open>0.5\<close> and \<open>2^70\<close> are
  single-precision values.
\<close>

definition exampleFround :: "number \<Rightarrow> number" where
  "exampleFround v =
     (if v = Finite (3602879701896397 / 36028797018963968) then Finite (13421773 / 134217728)
      else v)"

definition examplePlatform :: platform where
  "examplePlatform =
     \<lparr>MAX_T = 239, NULL = 240, TRUE = 241, FALSE = 242, EOBJECT = 243, EARRAY = 244,
      ESTRING = 245, OBJECT = 246, ARRAY = 247, INTEGER = 248, LONG = 249, FLOAT = 250,
      DOUBLE = 251, STRING = 252, STRING_ADD = 253, STRING_GET = 254, BINARY = 255,
      fround = exampleFround\<rparr>"

section \<open>A sink that accepts every write\<close>

definition accepting :: "ByteBuffer \<Rightarrow> bool" where
  "accepting buf = (\<forall>h c. \<not> refuses buf h c)"

text \<open>What \<open>encode\<close> leaves in a caller's buffer after writing \<open>cs\<close> to it.\<close>

definition wrote :: "ByteBuffer \<Rightarrow> sink_op list \<Rightarrow> ByteBuffer" where
  "wrote buf cs = buf\<lparr>written := written buf @ cs\<rparr>"

text \<open>
  The buffer a call of \<open>encode\<close> writes to (the caller's, or a new one), and what the call
  returns of it (a new buffer is flipped, the caller's is not).
\<close>

definition target :: "ByteBuffer option \<Rightarrow> ByteBuffer" where
  "target bufArg = (case bufArg of None \<Rightarrow> new_ByteBuffer | Some b \<Rightarrow> b)"

definition finish :: "ByteBuffer option \<Rightarrow> ByteBuffer \<Rightarrow> ByteBuffer" where
  "finish bufArg buf = (case bufArg of None \<Rightarrow> flip buf | Some b \<Rightarrow> buf)"

text \<open>A Number that is not an integer: a finite value with a fractional part, \<open>NaN\<close>, or an
  infinity.\<close>

definition nonIntegral :: "number \<Rightarrow> bool" where
  "nonIntegral v = (case v of Finite r \<Rightarrow> r \<notin> \<int> | _ \<Rightarrow> True)"

text \<open>
  The zigzag encoding of a signed 32-bit integer, from the spec's words (glossary: "a
  signed-to-unsigned integer mapping that interleaves positive and negative values"):
  \<open>0, -1, 1, -2, 2, \<dots>\<close> go to \<open>0, 1, 2, 3, 4, \<dots>\<close>.
\<close>

definition zigzag32 :: "int \<Rightarrow> nat" where
  "zigzag32 i = nat (if 0 \<le> i then 2 * i else - 2 * i - 1)"

section \<open>The bytes of a 32-bit zigzag varint\<close>

text \<open>
  Modelled from the spec: the 32-bit variable-length integer of the sink (spec section 6: "write
  a zigzag-encoded signed variable-length integer (32-bit and 64-bit variants)"; glossary: "an
  integer encoding using a variable number of bytes, fewer bytes for smaller magnitudes"). The
  sink is the bytebuffer library, whose \<open>writeVarint32\<close> takes the value as an unsigned 32-bit
  integer and writes seven bits a byte, low bits first, with the high bit of a byte set when
  another byte follows.
\<close>

function varint32 :: "32 word \<Rightarrow> nat list" where
  "varint32 v =
     (if 0x80 \<le> v then unat ((v AND 0x7f) OR 0x80) # varint32 (drop_bit 7 v) else [unat v])"
  by pat_completeness auto
termination
proof (relation "measure unat")
  show "wf (measure unat)" by simp
next
  fix v :: "32 word"
  assume "0x80 \<le> v"
  then have "128 \<le> unat v" by (simp add: word_le_nat_alt)
  then have lt: "unat v div 2 ^ 7 < unat v" by simp
  have eq: "unat (drop_bit 7 v) = unat v div 2 ^ 7"
    by (simp add: drop_bit_eq_div unat_div)
  show "(drop_bit 7 v, v) \<in> measure unat"
    unfolding in_measure eq by (rule lt)
qed

declare varint32.simps [simp del]

text \<open>
  Modelled from the spec: \<open>writeVarint32ZigZag(value)\<close> of the sink, which is
  \<open>writeVarint32(zigZagEncode32(value))\<close>.
\<close>

definition writeVarint32ZigZagBytes :: "number \<Rightarrow> nat list" where
  "writeVarint32ZigZagBytes v = varint32 (word_of_nat (zigZagEncode32 v))"

text \<open>
  Modelled from the spec: the reader's side of the same encoding, \<open>readVarint32\<close>,
  \<open>zigZagDecode32\<close> (\<open>((n >>> 1) ^ -(n & 1)) | 0\<close>) and \<open>readVarint32ZigZag\<close> of the sink
  (spec section 8: "a variable-length zigzag encoding that decodes back to \<open>v\<close>"). \<open>c\<close>
  counts the bytes read and \<open>val\<close> collects their low seven bits; only the first five bytes
  contribute. Reading past the end of the bytes fails.
\<close>

fun readVarint32 :: "nat \<Rightarrow> 32 word \<Rightarrow> nat list \<Rightarrow> 32 word option" where
  "readVarint32 c val [] = None"
| "readVarint32 c val (b # bs) =
     (let val' = (if c < 5 then val OR push_bit (7 * c) (word_of_nat (b AND 0x7f)) else val)
      in if b AND 0x80 \<noteq> 0 then readVarint32 (c + 1) val' bs else Some val')"

definition zigZagDecode32 :: "32 word \<Rightarrow> int" where
  "zigZagDecode32 n = sint (drop_bit 1 n XOR - (n AND 1))"

definition readVarint32ZigZag :: "nat list \<Rightarrow> int option" where
  "readVarint32ZigZag bs = map_option zigZagDecode32 (readVarint32 0 0 bs)"

section \<open>The dictionary over the lifetime of an encoder\<close>

text \<open>
  The two key names on which the dictionary object does not behave as a map (see \<open>store\<close> and
  \<open>lookup\<close>), and the values none of whose object keys has such a name. The keys of the
  wrapper of a binary value count: they are encoded when a write of the binary form throws.
\<close>

definition ordinary :: "string \<Rightarrow> bool" where
  "ordinary key = (key \<noteq> ''__proto__'' \<and> key \<noteq> ''hasOwnProperty'')"

fun ordinaryKeys :: "json \<Rightarrow> bool"
  and ordinaryElements :: "json list \<Rightarrow> bool"
  and ordinaryFields :: "(string \<times> json) list \<Rightarrow> bool"
where
  "ordinaryKeys (JArray vs) = ordinaryElements vs"
| "ordinaryKeys (JBinary bs wprops wother) = ordinaryFields wprops"
| "ordinaryKeys (JObject props other) = ordinaryFields props"
| "ordinaryKeys JNull = True"
| "ordinaryKeys JUndefined = True"
| "ordinaryKeys (JBoolean b) = True"
| "ordinaryKeys (JNumber n) = True"
| "ordinaryKeys (JString s) = True"
| "ordinaryKeys (JFunction src) = True"
| "ordinaryKeys JSymbol = True"
| "ordinaryKeys (JBigInt i) = True"
| "ordinaryKeys (JLong l) = True"
| "ordinaryElements [] = True"
| "ordinaryElements (v # vs) = (ordinaryKeys v \<and> ordinaryElements vs)"
| "ordinaryFields [] = True"
| "ordinaryFields ((key, v) # ps) = (ordinary key \<and> ordinaryKeys v \<and> ordinaryFields ps)"

text \<open>
  \<open>keysInOrder ks e\<close>: the keys of the dictionary of \<open>e\<close> are the pairwise distinct strings
  \<open>ks\<close>, none of them one of the two names above, the key at position \<open>n\<close> (counted from 0)
  has index \<open>n\<close>, and the counter stands at the number of keys.
\<close>

definition keysInOrder :: "string list \<Rightarrow> Encoder \<Rightarrow> bool" where
  "keysInOrder ks e =
     (distinct ks \<and> list_all ordinary ks \<and> next_index e = length ks \<and>
      dict e = map_of (zip ks [0..<length ks]))"

text \<open>
  The encoder after a sequence of \<open>encode\<close> calls, each with its value and its buffer argument.
  A call that throws leaves the encoder as it is at the throw, and the next call goes on from
  there.
\<close>

fun session :: "platform \<Rightarrow> (json \<times> ByteBuffer option) list \<Rightarrow> Encoder \<Rightarrow> Encoder" where
  "session P [] e = e"
| "session P ((json, bufArg) # calls) e = session P calls (fst (snd (encode P json bufArg e)))"

text \<open>The calls all of whose values have ordinary keys only.\<close>

fun ordinaryCalls :: "(json \<times> ByteBuffer option) list \<Rightarrow> bool" where
  "ordinaryCalls [] = True"
| "ordinaryCalls ((json, bufArg) # calls) = (ordinaryKeys json \<and> ordinaryCalls calls)"

text \<open>An action that returns the encoder it was given; an action under which the list of
  keys only grows at its end.\<close>

definition keepsEncoder :: "action \<Rightarrow> bool" where
  "keepsEncoder m = (\<forall>enc buf. fst (snd (m (enc, buf))) = enc)"

definition dictGrows :: "action \<Rightarrow> bool" where
  "dictGrows m =
     (\<forall>ks enc buf. keysInOrder ks enc \<longrightarrow>
        (\<exists>added. keysInOrder (ks @ added) (fst (snd (m (enc, buf))))))"

section \<open>A key written without growing the dictionary\<close>

text \<open>
  Spec section 3 on the exclusion flag: "keys are still looked up in the existing dictionary
  but never added". This is that key step, written from the spec's words, to be compared with
  \<open>encodeKey\<close>: StringGet and the index for a key of the dictionary, String and the key
  otherwise. The dictionary is read here as the map it is meant to be.
\<close>

definition plainKey :: "platform \<Rightarrow> string \<Rightarrow> action" where
  "plainKey P key = (\<lambda>(enc, buf).
     case dict enc key of
       Some i \<Rightarrow> andThen (writeUint8 (STRING_GET P)) (writeVarint32 i) (enc, buf)
     | None \<Rightarrow> andThen (writeUint8 (STRING P)) (writeVString key) (enc, buf))"

section \<open>The byte order of the sink\<close>

text \<open>
  A write is little-endian when it is a float write made in little-endian mode, or any other
  write (the byte order does not enter its bytes). \<open>sinkStep buf buf'\<close>: the sink went from
  \<open>buf\<close> to \<open>buf'\<close> by accepted writes only, without a change of its byte-order mode, and
  the writes are little-endian if the mode is.
\<close>

fun littleEndianOp :: "sink_op \<Rightarrow> bool" where
  "littleEndianOp (WriteFloat32 le v) = le"
| "littleEndianOp (WriteFloat64 le v) = le"
| "littleEndianOp _ = True"

definition sinkStep :: "ByteBuffer \<Rightarrow> ByteBuffer \<Rightarrow> bool" where
  "sinkStep buf buf' =
     (littleEndian buf' = littleEndian buf \<and> flipped buf' = flipped buf \<and>
      refuses buf' = refuses buf \<and>
      (\<exists>cs. written buf' = written buf @ cs \<and> (littleEndian buf \<longrightarrow> list_all littleEndianOp cs)))"

definition sinkFrame :: "action \<Rightarrow> bool" where
  "sinkFrame m = (\<forall>enc buf. sinkStep buf (snd (snd (m (enc, buf)))))"

text \<open>A big-endian buffer of the caller's that throws on every call after the first \<open>n\<close>.\<close>

definition limitedBuffer :: "nat \<Rightarrow> ByteBuffer" where
  "limitedBuffer n =
     \<lparr>written = [], littleEndian = False, flipped = False, refuses = (\<lambda>h c. n \<le> length h)\<rparr>"

section \<open>Basic facts\<close>

lemma writeOp_accepting:
  "accepting buf \<Longrightarrow> writeOp c (enc, buf) = (Inr (), (enc, wrote buf [c]))"
  by (simp add: writeOp_def accepting_def wrote_def)

lemma accepting_wrote [simp]: "accepting (wrote buf cs) = accepting buf"
  by (simp add: accepting_def wrote_def)

lemma accepting_LE [simp]: "accepting (LE buf) = accepting buf"
  by (simp add: accepting_def LE_def)

lemma accepting_new_ByteBuffer [simp]: "accepting new_ByteBuffer"
  by (simp add: accepting_def new_ByteBuffer_def)

lemma wrote_wrote [simp]: "wrote (wrote buf cs) ds = wrote buf (cs @ ds)"
  by (simp add: wrote_def)

lemma littleEndian_wrote [simp]: "littleEndian (wrote buf cs) = littleEndian buf"
  by (simp add: wrote_def)

lemma written_wrote [simp]: "written (wrote buf cs) = written buf @ cs"
  by (simp add: wrote_def)

lemma restore_LE_wrote [simp]:
  "(wrote (LE buf) cs)\<lparr>littleEndian := littleEndian buf\<rparr> = wrote buf cs"
  by (simp add: wrote_def LE_def)

lemma andThen_Inr: "m st = (Inr u, st') \<Longrightarrow> andThen m k st = k st'"
  by (simp add: andThen_def)

lemma andThen_Inl: "m st = (Inl e, st') \<Longrightarrow> andThen m k st = (Inl e, st')"
  by (simp add: andThen_def)

lemma andThen_skip [simp]: "andThen m skip = m"
  by (rule ext) (simp add: andThen_def skip_def split: prod.splits sum.splits)

lemma skip_andThen [simp]: "andThen skip k = k"
  by (rule ext) (simp add: andThen_def skip_def)

lemma andThen_assoc: "andThen (andThen m k) l = andThen m (andThen k l)"
  by (rule ext) (simp add: andThen_def split: prod.splits sum.splits)

subsection \<open>The integrality test of line 100\<close>

lemma leading_less: "leading n < 10"
  by (induction n rule: leading.induct) (subst leading.simps, simp)

lemma trunc_of_int [simp]: "trunc (of_int i) = i"
  by (simp add: trunc_def)

lemma parseInt_integral:
  assumes "r \<in> \<int>" "\<bar>r\<bar> < 10 ^ 21"
  shows "parseInt (Finite r) = Finite r"
proof -
  from assms(1) obtain i where r: "r = of_int i" by (auto elim: Ints_cases)
  have "r = 0 \<or> 1 / 10 ^ 6 \<le> \<bar>r\<bar>"
  proof (cases "i = 0")
    case True then show ?thesis by (simp add: r)
  next
    case False
    then have "1 \<le> \<bar>i\<bar>" by simp
    then have "(1::real) \<le> \<bar>r\<bar>" unfolding r by (metis of_int_1 of_int_abs of_int_le_iff)
    then show ?thesis by simp
  qed
  then show ?thesis using assms(2) by (auto simp: r)
qed

lemma parseInt_cases:
  "\<exists>x. parseInt (Finite r) = Finite (of_int x) \<and>
     (10 ^ 21 \<le> \<bar>r\<bar> \<longrightarrow> \<bar>x\<bar> < 10)"
proof (cases "10 ^ 21 \<le> \<bar>r\<bar>")
  case True
  then have d: "leadingDigit \<bar>r\<bar> = int (leading (nat \<lfloor>\<bar>r\<bar>\<rfloor>))"
    by (simp add: leadingDigit_def)
  have "\<bar>(if r < 0 then - 1 else 1) * leadingDigit \<bar>r\<bar>\<bar> < 10"
    unfolding d by (simp add: abs_mult leading_less)
  moreover have "parseInt (Finite r) =
      Finite (of_int ((if r < 0 then - 1 else 1) * leadingDigit \<bar>r\<bar>))"
    using True by auto
  ultimately show ?thesis by blast
next
  case False
  have "\<exists>x::int. parseInt (Finite r) = Finite (of_int x)"
    by (cases "r = 0 \<or> (1 / 10 ^ 6 \<le> \<bar>r\<bar> \<and> \<bar>r\<bar> < 10 ^ 21)")
       (simp_all only: parseInt.simps if_True if_False, blast+)
  with False show ?thesis by blast
qed

lemma parseInt_large:
  assumes "10 ^ 21 \<le> \<bar>r\<bar>"
  shows "parseInt (Finite r) \<noteq> Finite r"
proof
  assume eq: "parseInt (Finite r) = Finite r"
  from parseInt_cases [of r] assms obtain x :: int
    where x: "parseInt (Finite r) = Finite (of_int x)" and small: "\<bar>x\<bar> < 10" by blast
  from eq x have "r = of_int x" by simp
  then have "\<bar>r\<bar> < 10" using small by simp
  with assms show False by simp
qed

lemma parseInt_fraction:
  assumes "r \<notin> \<int>"
  shows "parseInt (Finite r) \<noteq> Finite r"
proof
  assume eq: "parseInt (Finite r) = Finite r"
  from parseInt_cases [of r] obtain x :: int
    where x: "parseInt (Finite r) = Finite (of_int x)" by blast
  from eq x have "r = of_int x" by simp
  then have "r \<in> \<int>" by simp
  with assms show False by simp
qed

lemma integral_test:
  "strictEq v (parseInt v) \<longleftrightarrow> (\<exists>r. v = Finite r \<and> r \<in> \<int> \<and> \<bar>r\<bar> < 10 ^ 21)"
proof (cases v)
  case (Finite r)
  show ?thesis
  proof (cases "r \<in> \<int> \<and> \<bar>r\<bar> < 10 ^ 21")
    case True
    then show ?thesis using parseInt_integral [of r] by (simp add: Finite strictEq_def)
  next
    case False
    then have "parseInt (Finite r) \<noteq> Finite r"
      using parseInt_large [of r] parseInt_fraction [of r] by (cases "r \<in> \<int>") auto
    then show ?thesis using False by (auto simp: Finite strictEq_def)
  qed
qed (simp_all add: strictEq_def)

declare parseInt.simps(1) [simp del]

subsection \<open>Writes to an accepting sink\<close>

lemma writeUint8_accepting:
  "accepting buf \<Longrightarrow> writeUint8 b (enc, buf) = (Inr (), (enc, wrote buf [WriteUint8 b]))"
  by (simp add: writeUint8_def writeOp_accepting)

lemma writeVarint32_accepting:
  "accepting buf \<Longrightarrow> writeVarint32 n (enc, buf) = (Inr (), (enc, wrote buf [WriteVarint32 n]))"
  by (simp add: writeVarint32_def writeOp_accepting)

lemma writeVarint32ZigZag_accepting:
  "accepting buf \<Longrightarrow>
     writeVarint32ZigZag v (enc, buf) = (Inr (), (enc, wrote buf [WriteVarint32ZigZag v]))"
  by (simp add: writeVarint32ZigZag_def writeOp_accepting)

lemma writeFloat32_accepting:
  "accepting buf \<Longrightarrow>
     writeFloat32 v (enc, buf) = (Inr (), (enc, wrote buf [WriteFloat32 (littleEndian buf) v]))"
  by (simp add: writeFloat32_def writeOp_accepting)

lemma writeFloat64_accepting:
  "accepting buf \<Longrightarrow>
     writeFloat64 v (enc, buf) = (Inr (), (enc, wrote buf [WriteFloat64 (littleEndian buf) v]))"
  by (simp add: writeFloat64_def writeOp_accepting)

lemma writeVString_accepting:
  "accepting buf \<Longrightarrow> writeVString s (enc, buf) = (Inr (), (enc, wrote buf [WriteVString s]))"
  by (simp add: writeVString_def writeOp_accepting)

lemmas accepting_writes = writeUint8_accepting writeVarint32_accepting
  writeVarint32ZigZag_accepting writeFloat32_accepting writeFloat64_accepting
  writeVString_accepting

lemma littleEndian_LE [simp]: "littleEndian (LE buf)"
  by (simp add: LE_def)

lemma accepting_target_None [simp]: "accepting (target None)"
  by (simp add: target_def)

text \<open>A normal return of \<open>_encodeValue\<close> that wrote \<open>cs\<close> is a normal return of \<open>encode\<close>.\<close>

lemma encode_ok:
  "encodeValue P json False (enc, LE (target bufArg)) =
     (Inr (), (enc', wrote (LE (target bufArg)) cs)) \<Longrightarrow>
   encode P json bufArg enc = (Inr (), (enc', finish bufArg (wrote (target bufArg) cs)))"
  by (cases bufArg) (simp_all add: encode_def target_def finish_def)

section \<open>Numbers\<close>

lemma encodeNumber_small:
  assumes "r \<in> \<int>" "\<bar>r\<bar> < 10 ^ 21" "zigZagEncode32 (Finite r) \<le> MAX_T P" "accepting buf"
  shows "encodeValue P (JNumber (Finite r)) excluded (enc, buf) =
         (Inr (), (enc, wrote buf [WriteUint8 (zigZagEncode32 (Finite r))]))"
proof -
  have "strictEq (Finite r) (parseInt (Finite r))"
    using assms(1,2) by (simp only: integral_test) blast
  then show ?thesis using assms(3,4)
    by (simp add: encodeNumber_def accepting_writes)
qed

lemma encodeNumber_fraction:
  assumes "nonIntegral v" "accepting buf"
  shows "encodeValue P (JNumber v) excluded (enc, buf) =
         (Inr (), (enc, wrote buf
            (if strictEq v (fround P v)
             then [WriteUint8 (FLOAT P), WriteFloat32 (littleEndian buf) v]
             else [WriteUint8 (DOUBLE P), WriteFloat64 (littleEndian buf) v])))"
proof -
  have "\<not> strictEq v (parseInt v)"
    using assms(1) by (auto simp: integral_test nonIntegral_def)
  then show ?thesis using assms(2)
    by (simp add: encodeNumber_def accepting_writes andThen_Inr)
qed

text \<open>On the signed 32-bit integers the library's \<open>zigZagEncode32\<close> is the zigzag encoding.\<close>

lemma zigZagEncode32_int32:
  assumes "- (2 ^ 31) \<le> i" "i < 2 ^ 31"
  shows "zigZagEncode32 (Finite (of_int i)) = zigzag32 i"
proof -
  let ?w = "word_of_int i :: 32 word"
  have s: "sint ?w = i"
  proof -
    have "sint ?w = signed_take_bit (LENGTH(32) - 1) i" by (rule sint_sbintrunc')
    also have "\<dots> = i" using assms by (simp add: signed_take_bit_int_eq_self)
    finally show ?thesis .
  qed
  have b: "bit ?w 31 \<longleftrightarrow> i < 0"
    using bit_last_iff [of ?w] by (simp add: s)
  have sd: "signed_drop_bit 31 ?w = (if i < 0 then - 1 else 0)"
  proof (rule bit_word_eqI)
    fix n assume "n < LENGTH(32)"
    then have n: "n < 32" by simp
    have "bit (signed_drop_bit 31 ?w) n = bit ?w 31"
      using n by (cases "n = 0") (simp_all add: bit_signed_drop_bit_iff)
    then show "bit (signed_drop_bit 31 ?w) n = bit (if i < 0 then - 1 else 0 :: 32 word) n"
      using n b by (simp add: bit_simps)
  qed
  have e: "zigZagEncode32 (Finite (of_int i)) = unat (push_bit 1 ?w XOR signed_drop_bit 31 ?w)"
    by (simp add: zigZagEncode32_def ToInt32_def Let_def)
  show ?thesis
  proof (cases "i < 0")
    case False
    have "push_bit 1 ?w XOR signed_drop_bit 31 ?w = word_of_int (2 * i)"
      using False by (simp add: sd)
    then have "zigZagEncode32 (Finite (of_int i)) = nat (uint (word_of_int (2 * i) :: 32 word))"
      unfolding e by simp
    also have "uint (word_of_int (2 * i) :: 32 word) = (2 * i) mod 2 ^ 32"
      by (subst uint_word_of_int) simp
    also have "(2 * i) mod 2 ^ 32 = 2 * i"
      using False assms by (intro mod_pos_pos_trivial) simp_all
    finally show ?thesis using False by (simp add: zigzag32_def)
  next
    case True
    have "push_bit 1 ?w XOR signed_drop_bit 31 ?w = NOT (word_of_int (2 * i))"
      using True by (simp add: sd)
    also have "\<dots> = word_of_int (- 2 * i - 1)"
      by (simp add: not_eq_complement)
    finally have "zigZagEncode32 (Finite (of_int i)) =
        nat (uint (word_of_int (- 2 * i - 1) :: 32 word))"
      unfolding e by simp
    also have "uint (word_of_int (- 2 * i - 1) :: 32 word) = (- 2 * i - 1) mod 2 ^ 32"
      by (subst uint_word_of_int) simp
    also have "(- 2 * i - 1) mod 2 ^ 32 = - 2 * i - 1"
      using True assms by (intro mod_pos_pos_trivial) simp_all
    finally show ?thesis using True by (simp add: zigzag32_def)
  qed
qed

text \<open>
  A zigzag value below \<open>2^32\<close>, as every value within a threshold that is a tag byte, belongs to
  a signed 32-bit integer only.
\<close>

lemma zigzag32_below_int32:
  assumes "zigzag32 i < 2 ^ 32"
  shows "- (2 ^ 31) \<le> i \<and> i < 2 ^ 31"
proof (cases "0 \<le> i")
  case True
  then have "2 * i < 2 ^ 32" using assms by (simp add: zigzag32_def nat_less_iff)
  then show ?thesis using True by simp
next
  case False
  then have "- 2 * i - 1 < 2 ^ 32" using assms by (simp add: zigzag32_def nat_less_iff)
  then show ?thesis using False by simp
qed

text \<open>
  C4: for every integral Number \<open>v\<close>, a signed 32-bit integer, whose zigzag encoding is within
  the small-integer threshold, \<open>encode(v)\<close> writes exactly one byte, and that byte is
  \<open>zigzag32(v)\<close>. (The sink is one that accepts the write, as a new buffer does.)
\<close>

theorem small_integer_one_byte:
  assumes "- (2 ^ 31) \<le> i" and "i < 2 ^ 31" and "zigzag32 i \<le> MAX_T P"
    and "accepting (target bufArg)"
  shows "encode P (JNumber (Finite (of_int i))) bufArg enc =
           (Inr (), (enc, finish bufArg (wrote (target bufArg) [WriteUint8 (zigzag32 i)])))"
proof -
  have "\<bar>i\<bar> < 10 ^ 21" using assms(1,2) by simp
  then have "(of_int \<bar>i\<bar> :: real) < of_int (10 ^ 21)" by (simp only: of_int_less_iff)
  then have m: "\<bar>of_int i :: real\<bar> < 10 ^ 21" by simp
  have z: "zigZagEncode32 (Finite (of_int i)) = zigzag32 i"
    using assms(1,2) by (rule zigZagEncode32_int32)
  have "encodeValue P (JNumber (Finite (of_int i))) False (enc, LE (target bufArg)) =
      (Inr (), (enc, wrote (LE (target bufArg)) [WriteUint8 (zigZagEncode32 (Finite (of_int i)))]))"
    using m assms(3,4) by (intro encodeNumber_small) (simp_all add: z)
  from encode_ok [OF this] show ?thesis by (simp only: z)
qed

theorem small_integer_one_byte_witness:
  "- (2 ^ 31) \<le> (- 120 :: int) \<and> (- 120 :: int) < 2 ^ 31
   \<and> zigzag32 (- 120) \<le> MAX_T examplePlatform
   \<and> accepting (target None)
   \<and> encode examplePlatform (JNumber (Finite (- 120))) None (new_Encoder [] True) =
       (Inr (), (new_Encoder [] True, finish None (wrote (target None) [WriteUint8 239])))"
proof -
  have z: "zigzag32 (- 120) = 239"
    by (simp add: zigzag32_def)
  show ?thesis
    using small_integer_one_byte [of "- 120" examplePlatform None "new_Encoder [] True"]
    by (simp add: z examplePlatform_def)
qed

text \<open>
  C5: for every non-integral Number \<open>v\<close> (a finite value that is not an integer, \<open>NaN\<close>, or an
  infinity) the encoder writes tag Float and the 4-byte value when \<open>v\<close> is \<open>===\<close> to its
  conversion to single precision and back, and tag Double and the 8-byte value otherwise. Both
  payloads are written little-endian.
\<close>

theorem float_or_double:
  assumes "nonIntegral v" and "accepting (target bufArg)"
  shows "encode P (JNumber v) bufArg enc =
           (Inr (), (enc, finish bufArg (wrote (target bufArg)
              (if strictEq v (fround P v) then [WriteUint8 (FLOAT P), WriteFloat32 True v]
               else [WriteUint8 (DOUBLE P), WriteFloat64 True v]))))"
  using assms encodeNumber_fraction [of v "LE (target bufArg)" P False enc]
  by (intro encode_ok) simp

theorem float_or_double_witness:
  "nonIntegral (Finite (1 / 2)) \<and> accepting (target None)
   \<and> encode examplePlatform (JNumber (Finite (1 / 2))) None (new_Encoder [] True) =
       (Inr (), (new_Encoder [] True,
          finish None (wrote (target None) [WriteUint8 250, WriteFloat32 True (Finite (1 / 2))])))"
proof -
  have "(1 / 2 :: real) \<notin> \<int>"
  proof
    assume "(1 / 2 :: real) \<in> \<int>"
    then obtain i :: int where "(1 / 2 :: real) = of_int i" by (auto elim: Ints_cases)
    then have "(of_int (2 * i) :: real) = of_int 1" by simp
    then have "2 * i = 1" by (simp only: of_int_eq_iff)
    then show False by presburger
  qed
  then have h: "nonIntegral (Finite (1 / 2))" by (simp add: nonIntegral_def)
  show ?thesis
    using float_or_double [OF h, of None examplePlatform "new_Encoder [] True"] h
    by (simp add: examplePlatform_def exampleFround_def strictEq_def)
qed

section \<open>Objects and arrays\<close>

lemma lookup_plain:
  "dict enc ''hasOwnProperty'' = None \<Longrightarrow> lookup enc key = Inr (dict enc key)"
  by (simp add: lookup_def)

lemma lookup_TypeError:
  "dict enc ''hasOwnProperty'' = Some i \<Longrightarrow> lookup enc key = Inl TypeError"
  by (simp add: lookup_def)

lemma encodeKey_accepting:
  "accepting buf \<Longrightarrow> dict enc ''hasOwnProperty'' = None \<Longrightarrow>
   encodeKey P ex key (enc, buf) =
     (case dict enc key of
        Some i \<Rightarrow> (Inr (), (enc, wrote buf [WriteUint8 (STRING_GET P), WriteVarint32 i]))
      | None \<Rightarrow>
          if progressive enc \<and> \<not> ex
          then (Inr (), (enc\<lparr>dict := store (dict enc) key (next_index enc),
                             next_index := next_index enc + 1\<rparr>,
                        wrote buf [WriteUint8 (STRING_ADD P), WriteVString key]))
          else (Inr (), (enc, wrote buf [WriteUint8 (STRING P), WriteVString key])))"
  by (cases "dict enc key")
     (simp_all add: encodeKey_def lookup_plain accepting_writes andThen_Inr)

lemma written_target_None [simp]: "written (target None) = []"
  by (simp add: target_def new_ByteBuffer_def)

lemma new_Encoder_Nil:
  "new_Encoder [] prog = \<lparr>dict = Map.empty, next_index = 0, progressive = prog\<rparr>"
  by (simp add: new_Encoder_def seedLoop.simps)

lemma store_ordinary: "key \<noteq> ''__proto__'' \<Longrightarrow> store d key n = d(key \<mapsto> n)"
  by (simp add: store_def)

lemma countDefined_filter:
  "countDefined props = length (filter (\<lambda>(key, v). v \<noteq> JUndefined) props)"
  by (induction props) auto

lemma countDefined_append [simp]:
  "countDefined (xs @ ys) = countDefined xs + countDefined ys"
  by (induction xs) auto

lemma encodeFields_foldr:
  "encodeFields P ex props =
     foldr (\<lambda>(key, v) rest. andThen (encodeKey P ex key) (andThen (encodeValue P v False) rest))
       (filter (\<lambda>(key, v). v \<noteq> JUndefined) props) skip"
  by (induction props) auto

lemma encodeFields_append:
  "encodeFields P ex (xs @ ys) = andThen (encodeFields P ex xs) (encodeFields P ex ys)"
  by (induction xs) (auto simp: andThen_assoc)

lemma encodeElements_undefined:
  "encodeElements P (map (\<lambda>v. if v = JUndefined then JNull else v) vs) = encodeElements P vs"
  by (induction vs) auto

lemma readSentinel_at:
  "''_PSON_EXCL_'' \<notin> fst ` set before \<Longrightarrow>
   readSentinel (before @ (''_PSON_EXCL_'', v) # after) other = v"
  by (simp add: readSentinel_def map_add_def map_of_eq_None_iff [THEN iffD2])

text \<open>
  C7: the pair count written after tag Object is the number of fields whose value is not
  \<open>undefined\<close>, and exactly those fields are encoded, each as its key followed by its value,
  in key order; a field whose value is \<open>undefined\<close> contributes nothing. (With no such field
  left the object is written as the single tag EmptyObject.)
\<close>

theorem absent_fields_omitted:
  "encodeValue P (JObject props other) excluded =
     (let present = filter (\<lambda>(key, v). v \<noteq> JUndefined) props in
      if present = [] then writeUint8 (EOBJECT P)
      else andThen (writeUint8 (OBJECT P))
             (andThen (writeVarint32 (length present))
                (foldr (\<lambda>(key, v) rest.
                     andThen (encodeKey P (excluded \<or> truthy (readSentinel props other)) key)
                       (andThen (encodeValue P v False) rest))
                   present skip)))"
proof -
  have "(if \<not> excluded then truthy (readSentinel props other) else excluded)
        = (excluded \<or> truthy (readSentinel props other))" by simp
  then show ?thesis
    by (simp add: Let_def countDefined_filter encodeFields_foldr [symmetric] del: encodeFields.simps)
qed

theorem absent_fields_omitted_witness:
  "encode examplePlatform
     (JObject [(''a'', JUndefined), (''b'', JBoolean True), (''c'', JUndefined)] JUndefined) None
     (new_Encoder [] False) =
   (Inr (), (new_Encoder [] False, finish None (wrote (target None)
      [WriteUint8 246, WriteVarint32 1, WriteUint8 252, WriteVString ''b'', WriteUint8 241])))"
  apply (rule encode_ok)
  apply (subst absent_fields_omitted)
  apply (simp add: new_Encoder_Nil encodeKey_accepting accepting_writes andThen_Inr
      examplePlatform_def)
  done

text \<open>
  C8: a static encoder seeded with \<open>["x"]\<close> encodes \<open>{x: true, y: false}\<close> as tag Object,
  pair count 2, StringGet with index 0, True, then String with payload \<open>y\<close>, False; the
  encoder, and so the dictionary, is unchanged.
\<close>

theorem static_seeded_scenario:
  "encode P (JObject [(''x'', JBoolean True), (''y'', JBoolean False)] JUndefined) None
     (new_Encoder [''x''] False) =
   (Inr (), (new_Encoder [''x''] False, finish None (wrote (target None)
      [WriteUint8 (OBJECT P), WriteVarint32 2,
       WriteUint8 (STRING_GET P), WriteVarint32 0, WriteUint8 (TRUE P),
       WriteUint8 (STRING P), WriteVString ''y'', WriteUint8 (FALSE P)])))
   \<and> new_Encoder [''x''] False = \<lparr>dict = [''x'' \<mapsto> 0], next_index = 1, progressive = False\<rparr>"
proof -
  have n: "new_Encoder [''x''] False = \<lparr>dict = [''x'' \<mapsto> 0], next_index = 1, progressive = False\<rparr>"
    by (simp add: new_Encoder_def seedLoop.simps store_def)
  have "encode P (JObject [(''x'', JBoolean True), (''y'', JBoolean False)] JUndefined) None
     (new_Encoder [''x''] False) =
   (Inr (), (new_Encoder [''x''] False, finish None (wrote (target None)
      [WriteUint8 (OBJECT P), WriteVarint32 2,
       WriteUint8 (STRING_GET P), WriteVarint32 0, WriteUint8 (TRUE P),
       WriteUint8 (STRING P), WriteVString ''y'', WriteUint8 (FALSE P)])))"
    by (rule encode_ok)
       (simp add: n readSentinel_def encodeKey_accepting accepting_writes andThen_Inr
          numeral_2_eq_2)
  then show ?thesis using n by simp
qed

theorem static_seeded_scenario_witness:
  "written (snd (snd (encode examplePlatform
       (JObject [(''x'', JBoolean True), (''y'', JBoolean False)] JUndefined) None
       (new_Encoder [''x''] False)))) =
     [WriteUint8 246, WriteVarint32 2, WriteUint8 254, WriteVarint32 0, WriteUint8 241,
      WriteUint8 252, WriteVString ''y'', WriteUint8 242]"
  using static_seeded_scenario [of examplePlatform, THEN conjunct1]
  by (simp add: examplePlatform_def finish_def flip_def)

text \<open>
  C9: \<open>undefined\<close> passed to \<open>encode\<close>, or found as an element of an array, is written as
  the tag Null, exactly as \<open>null\<close> is: replacing every \<open>undefined\<close> element of an array by
  \<open>null\<close> does not change what the encoder does, and the element is counted.
\<close>

theorem undefined_as_null:
  "encodeValue P JUndefined excluded = writeUint8 (NULL P)
   \<and> encodeValue P JUndefined excluded = encodeValue P JNull excluded
   \<and> encodeValue P (JArray vs) excluded =
       encodeValue P (JArray (map (\<lambda>v. if v = JUndefined then JNull else v) vs)) excluded
   \<and> encode P JUndefined None enc =
       (Inr (), (enc, finish None (wrote (target None) [WriteUint8 (NULL P)])))
   \<and> encode P (JArray [JUndefined, JBoolean True]) None enc =
       (Inr (), (enc, finish None (wrote (target None)
          [WriteUint8 (ARRAY P), WriteVarint32 2, WriteUint8 (NULL P), WriteUint8 (TRUE P)])))"
proof -
  have a: "encode P JUndefined None enc =
       (Inr (), (enc, finish None (wrote (target None) [WriteUint8 (NULL P)])))"
    by (rule encode_ok) (simp add: accepting_writes)
  have b: "encode P (JArray [JUndefined, JBoolean True]) None enc =
       (Inr (), (enc, finish None (wrote (target None)
          [WriteUint8 (ARRAY P), WriteVarint32 2, WriteUint8 (NULL P), WriteUint8 (TRUE P)])))"
    by (rule encode_ok) (simp add: accepting_writes andThen_Inr numeral_2_eq_2)
  show ?thesis by (simp add: a b encodeElements_undefined)
qed

theorem undefined_as_null_witness:
  "encode examplePlatform (JArray [JUndefined, JBoolean True]) None (new_Encoder [] True) =
       (Inr (), (new_Encoder [] True, finish None (wrote (target None)
          [WriteUint8 247, WriteVarint32 2, WriteUint8 240, WriteUint8 241])))"
  using undefined_as_null [of examplePlatform False "[]" "new_Encoder [] True"]
  by (simp add: examplePlatform_def)

text \<open>
  C10, as stated, fails for an own property that is not enumerable. An object with the one
  enumerable field \<open>a\<close> and a truthy \<open>_PSON_EXCL_\<close> defined as not enumerable is excluded by
  the read of line 154 (on a progressive encoder the key \<open>a\<close> is written as String, not
  StringAdd, and the dictionary stays empty), but \<open>Object.keys\<close> does not list the sentinel:
  the pair count is 1 and nothing is written for it.
\<close>

theorem sentinel_is_encoded_counterexample:
  "truthy (readSentinel [(''a'', JNull)] (JBoolean True))
   \<and> encode examplePlatform (JObject [(''a'', JNull)] (JBoolean True)) None (new_Encoder [] True) =
       (Inr (), (new_Encoder [] True, finish None (wrote (target None)
          [WriteUint8 246, WriteVarint32 1, WriteUint8 252, WriteVString ''a'', WriteUint8 240])))"
proof -
  have "encode examplePlatform (JObject [(''a'', JNull)] (JBoolean True)) None (new_Encoder [] True) =
       (Inr (), (new_Encoder [] True, finish None (wrote (target None)
          [WriteUint8 246, WriteVarint32 1, WriteUint8 252, WriteVString ''a'', WriteUint8 240])))"
    by (rule encode_ok)
       (simp add: new_Encoder_Nil readSentinel_def encodeKey_accepting accepting_writes
          andThen_Inr examplePlatform_def)
  then show ?thesis by (simp add: readSentinel_def)
qed

text \<open>
  C10, amended: an own enumerable property \<open>_PSON_EXCL_\<close> whose value is not \<open>undefined\<close> is
  counted in the pair count and encoded where it stands, key and value, like any other field;
  its truthiness sets the exclusion flag for every key of the object, its own included.
\<close>

theorem sentinel_is_encoded:
  assumes "v \<noteq> JUndefined" and "''_PSON_EXCL_'' \<notin> fst ` set before"
  shows "encodeValue P (JObject (before @ (''_PSON_EXCL_'', v) # after) other) excluded =
           andThen (writeUint8 (OBJECT P))
             (andThen (writeVarint32 (countDefined before + 1 + countDefined after))
                (andThen (encodeFields P (excluded \<or> truthy v) before)
                   (andThen (encodeKey P (excluded \<or> truthy v) ''_PSON_EXCL_'')
                      (andThen (encodeValue P v False)
                         (encodeFields P (excluded \<or> truthy v) after)))))"
proof -
  have "(if \<not> excluded then truthy v else excluded) = (excluded \<or> truthy v)" by simp
  then show ?thesis
    using assms by (simp add: readSentinel_at encodeFields_append)
qed

theorem sentinel_is_encoded_witness:
  "JBoolean True \<noteq> JUndefined \<and> ''_PSON_EXCL_'' \<notin> fst ` set [(''a'', JNull)]
   \<and> encode examplePlatform
       (JObject ([(''a'', JNull)] @ (''_PSON_EXCL_'', JBoolean True) # [(''b'', JNull)]) JUndefined)
       None (new_Encoder [] True) =
     (Inr (), (new_Encoder [] True, finish None (wrote (target None)
        [WriteUint8 246, WriteVarint32 3,
         WriteUint8 252, WriteVString ''a'', WriteUint8 240,
         WriteUint8 252, WriteVString ''_PSON_EXCL_'', WriteUint8 241,
         WriteUint8 252, WriteVString ''b'', WriteUint8 240])))"
proof -
  have h: "''_PSON_EXCL_'' \<notin> fst ` set [(''a'', JNull)]" by simp
  have "encode examplePlatform
       (JObject ([(''a'', JNull)] @ (''_PSON_EXCL_'', JBoolean True) # [(''b'', JNull)]) JUndefined)
       None (new_Encoder [] True) =
     (Inr (), (new_Encoder [] True, finish None (wrote (target None)
        [WriteUint8 246, WriteVarint32 3,
         WriteUint8 252, WriteVString ''a'', WriteUint8 240,
         WriteUint8 252, WriteVString ''_PSON_EXCL_'', WriteUint8 241,
         WriteUint8 252, WriteVString ''b'', WriteUint8 240])))"
    apply (rule encode_ok)
    apply (subst sentinel_is_encoded [OF _ h])
     apply simp
    apply (simp add: new_Encoder_Nil encodeKey_accepting accepting_writes andThen_Inr
        examplePlatform_def numeral_3_eq_3)
    done
  then show ?thesis by simp
qed

section \<open>The byte order during and after \<open>encode\<close>\<close>

lemma sinkStep_refl [simp]: "sinkStep buf buf"
  by (simp add: sinkStep_def)

lemma sinkStep_trans: "sinkStep a b \<Longrightarrow> sinkStep b c \<Longrightarrow> sinkStep a c"
  by (auto simp: sinkStep_def)

lemma sinkFrameD: "sinkFrame m \<Longrightarrow> m (enc, buf) = (r, (enc', buf')) \<Longrightarrow> sinkStep buf buf'"
  by (metis sinkFrame_def snd_conv)

lemma sinkFrameE: "sinkFrame m \<Longrightarrow> sinkStep buf (snd (snd (m (enc, buf))))"
  by (simp add: sinkFrame_def)

lemma sinkFrame_skip [simp]: "sinkFrame skip"
  by (simp add: sinkFrame_def skip_def)

lemma sinkFrame_writeOp: "littleEndianOp c \<Longrightarrow> sinkFrame (writeOp c)"
  by (simp add: sinkFrame_def writeOp_def sinkStep_def)

lemma sinkFrame_writes [simp]:
  "sinkFrame (writeUint8 b)" "sinkFrame (writeVarint32 n)" "sinkFrame (writeVarint32ZigZag v)"
  "sinkFrame (writeVarint64ZigZag l)" "sinkFrame (writeVString s)" "sinkFrame (append_bytes bs)"
  by (simp_all add: writeUint8_def writeVarint32_def writeVarint32ZigZag_def
      writeVarint64ZigZag_def writeVString_def append_bytes_def sinkFrame_writeOp)

lemma sinkFrame_writeFloat [simp]: "sinkFrame (writeFloat32 v)" "sinkFrame (writeFloat64 v)"
  by (simp_all add: sinkFrame_def writeFloat32_def writeFloat64_def writeOp_def sinkStep_def)

lemma sinkFrame_andThen [simp]:
  assumes "sinkFrame m" "sinkFrame k"
  shows "sinkFrame (andThen m k)"
  unfolding sinkFrame_def
proof (intro allI)
  fix enc buf
  obtain r enc' buf' where m: "m (enc, buf) = (r, (enc', buf'))" by (metis prod.exhaust)
  have 1: "sinkStep buf buf'" using sinkFrameD [OF assms(1) m] .
  show "sinkStep buf (snd (snd (andThen m k (enc, buf))))"
  proof (cases r)
    case (Inl e)
    then show ?thesis using m 1 by (simp add: andThen_def)
  next
    case (Inr u)
    obtain r2 enc2 buf2 where k: "k (enc', buf') = (r2, (enc2, buf2))" by (metis prod.exhaust)
    have "sinkStep buf' buf2" using sinkFrameD [OF assms(2) k] .
    with 1 have "sinkStep buf buf2" by (rule sinkStep_trans)
    then show ?thesis using m k Inr by (simp add: andThen_def)
  qed
qed

lemma sinkFrame_tryCatch [simp]:
  assumes "sinkFrame m" "sinkFrame h"
  shows "sinkFrame (tryCatch m h)"
  unfolding sinkFrame_def
proof (intro allI)
  fix enc buf
  obtain r enc' buf' where m: "m (enc, buf) = (r, (enc', buf'))" by (metis prod.exhaust)
  have 1: "sinkStep buf buf'" using sinkFrameD [OF assms(1) m] .
  show "sinkStep buf (snd (snd (tryCatch m h (enc, buf))))"
  proof (cases r)
    case (Inr u)
    then show ?thesis using m 1 by (simp add: tryCatch_def)
  next
    case (Inl e)
    obtain r2 enc2 buf2 where k: "h (enc', buf') = (r2, (enc2, buf2))" by (metis prod.exhaust)
    have "sinkStep buf' buf2" using sinkFrameD [OF assms(2) k] .
    with 1 have "sinkStep buf buf2" by (rule sinkStep_trans)
    then show ?thesis using m k Inl by (simp add: tryCatch_def)
  qed
qed

lemma sinkFrame_encodeString [simp]: "sinkFrame (encodeString P val)"
  unfolding sinkFrame_def
proof (intro allI)
  fix enc buf
  show "sinkStep buf (snd (snd (encodeString P val (enc, buf))))"
    by (cases "lookup enc val")
       (auto simp: encodeString_def sinkFrameE split: option.splits)
qed

lemma sinkFrame_encodeNumber [simp]: "sinkFrame (encodeNumber P val)"
  by (simp add: encodeNumber_def Let_def)

lemma sinkFrame_encodeKey [simp]: "sinkFrame (encodeKey P ex key)"
  unfolding sinkFrame_def
proof (intro allI)
  fix enc buf
  show "sinkStep buf (snd (snd (encodeKey P ex key (enc, buf))))"
    by (cases "lookup enc key")
       (auto simp: encodeKey_def sinkFrameE split: option.splits)
qed

lemma sinkFrame_encodeValue:
  "sinkFrame (encodeValue P v ex)"
  "sinkFrame (encodeElements P vs)"
  "sinkFrame (encodeObject P props other ex)"
  "sinkFrame (encodeFields P ex props)"
  by (induction P v ex and P vs and P props other ex and P ex props
      rule: encodeValue_encodeElements_encodeObject_encodeFields.induct)
     (simp_all add: Let_def)

text \<open>
  C6: whatever the value, the buffer and the outcome of the call (a normal return, or an
  exception thrown by the sink at any write), \<open>encode\<close> leaves the byte-order mode of the
  buffer as it found it; and every write of the call is made in little-endian mode.
\<close>

theorem byte_order_restored:
  "littleEndian (snd (snd (encode P json bufArg enc))) = littleEndian (target bufArg)
   \<and> (\<exists>cs. written (snd (snd (encode P json bufArg enc))) = written (target bufArg) @ cs
          \<and> list_all littleEndianOp cs)"
proof -
  obtain r enc' buf' where e: "encodeValue P json False (enc, LE (target bufArg)) = (r, (enc', buf'))"
    by (metis prod.exhaust)
  have "sinkStep (LE (target bufArg)) buf'"
    using sinkFrameD [OF sinkFrame_encodeValue(1) e] .
  then obtain cs where cs: "written buf' = written (target bufArg) @ cs" "list_all littleEndianOp cs"
    by (auto simp: sinkStep_def LE_def)
  have enc: "encode P json bufArg enc =
      (case r of Inr u \<Rightarrow> (Inr (), (enc', finish bufArg (buf'\<lparr>littleEndian := littleEndian (target bufArg)\<rparr>)))
       | Inl err \<Rightarrow> (Inl err, (enc', buf'\<lparr>littleEndian := littleEndian (target bufArg)\<rparr>)))"
    using e by (cases bufArg; cases r) (simp_all add: encode_def target_def finish_def)
  show ?thesis using cs
    by (cases r) (auto simp: enc finish_def flip_def split: option.splits)
qed

theorem byte_order_restored_witness:
  "encode examplePlatform (JNumber (Finite (1 / 2))) (Some (limitedBuffer 1)) (new_Encoder [] True)
     = (Inl (SinkError (WriteFloat32 True (Finite (1 / 2)))),
        (new_Encoder [] True, wrote (limitedBuffer 1) [WriteUint8 250]))
   \<and> littleEndian (snd (snd (encode examplePlatform (JNumber (Finite (1 / 2)))
         (Some (limitedBuffer 1)) (new_Encoder [] True)))) = littleEndian (limitedBuffer 1)
   \<and> littleEndian (limitedBuffer 1) = False"
proof -
  have p: "parseInt (Finite (1 / 2)) = Finite 0"
    by (simp add: parseInt.simps(1) trunc_def)
  have "encode examplePlatform (JNumber (Finite (1 / 2))) (Some (limitedBuffer 1)) (new_Encoder [] True)
     = (Inl (SinkError (WriteFloat32 True (Finite (1 / 2)))),
        (new_Encoder [] True, wrote (limitedBuffer 1) [WriteUint8 250]))"
    by (simp add: encode_def encodeNumber_def p strictEq_def examplePlatform_def exampleFround_def
        andThen_def writeUint8_def writeFloat32_def writeOp_def limitedBuffer_def LE_def wrote_def)
  then show ?thesis
    using byte_order_restored [of examplePlatform "JNumber (Finite (1 / 2))"
        "Some (limitedBuffer 1)" "new_Encoder [] True"]
    by (simp add: target_def limitedBuffer_def)
qed

section \<open>The exclusion sentinel\<close>

lemma writeOp_encoder [simp]: "fst (snd (writeOp c (enc, buf))) = enc"
  by (simp add: writeOp_def)




lemma plainKey_accepting:
  "accepting buf \<Longrightarrow> plainKey P key (enc, buf) =
     (case dict enc key of
        Some i \<Rightarrow> (Inr (), (enc, wrote buf [WriteUint8 (STRING_GET P), WriteVarint32 i]))
      | None \<Rightarrow> (Inr (), (enc, wrote buf [WriteUint8 (STRING P), WriteVString key])))"
  by (cases "dict enc key") (simp_all add: plainKey_def accepting_writes andThen_Inr)




section \<open>Dictionary indices\<close>

lemma keysInOrder_lookup:
  "keysInOrder ks e \<Longrightarrow> n < length ks \<Longrightarrow> dict e (ks ! n) = Some n"
  by (simp add: keysInOrder_def map_of_zip_nth)

lemma keysInOrder_None:
  "keysInOrder ks e \<Longrightarrow> (dict e k = None) = (k \<notin> set ks)"
  by (simp add: keysInOrder_def map_of_zip_is_None)

lemma keysInOrder_plain:
  assumes "keysInOrder ks e"
  shows "dict e ''hasOwnProperty'' = None"
proof -
  have "''hasOwnProperty'' \<notin> set ks"
    using assms by (auto simp: keysInOrder_def list_all_iff ordinary_def)
  then show ?thesis using keysInOrder_None [OF assms] by simp
qed

lemma keysInOrder_snoc:
  assumes "keysInOrder ks e" "k \<notin> set ks" "ordinary k"
  shows "keysInOrder (ks @ [k])
           (e\<lparr>dict := store (dict e) k (next_index e), next_index := next_index e + 1\<rparr>)"
proof -
  let ?n = "length ks"
  have d: "dom (map_of (zip ks [0..<?n])) = set ks"
    using assms(1) by (simp add: keysInOrder_def dom_map_of_zip)
  have "map_of (zip (ks @ [k]) [0..<Suc ?n]) = [k \<mapsto> ?n] ++ map_of (zip ks [0..<?n])"
    by simp
  also have "\<dots> = map_of (zip ks [0..<?n]) ++ [k \<mapsto> ?n]"
    by (rule map_add_comm) (simp add: d assms(2))
  also have "\<dots> = (map_of (zip ks [0..<?n]))(k \<mapsto> ?n)"
    by simp
  finally have "map_of (zip (ks @ [k]) [0..<Suc ?n]) = (map_of (zip ks [0..<?n]))(k \<mapsto> ?n)" .
  then show ?thesis using assms by (simp add: keysInOrder_def store_def ordinary_def)
qed

lemma nth_notin_take:
  assumes "distinct ds" "n < length ds"
  shows "ds ! n \<notin> set (take n ds)"
proof
  assume "ds ! n \<in> set (take n ds)"
  then obtain i where "i < n" "take n ds ! i = ds ! n"
    by (auto simp: in_set_conv_nth)
  then have "ds ! i = ds ! n" "i < length ds" "i \<noteq> n" using assms(2) by auto
  with assms show False by (simp add: nth_eq_iff_index_eq)
qed

lemma seedLoop_keys:
  "distinct ds \<Longrightarrow> list_all ordinary ds \<Longrightarrow> next_index e \<le> length ds \<Longrightarrow>
   keysInOrder (take (next_index e) ds) e \<Longrightarrow> keysInOrder ds (seedLoop ds e)"
proof (induction ds e rule: seedLoop.induct)
  case (1 ds e)
  show ?case
  proof (cases "next_index e < length ds")
    case True
    let ?e = "e\<lparr>dict := store (dict e) (ds ! next_index e) (next_index e),
                 next_index := next_index e + 1\<rparr>"
    have "ordinary (ds ! next_index e)"
      using "1.prems"(2) True by (simp add: list_all_length)
    then have "keysInOrder (take (next_index e) ds @ [ds ! next_index e]) ?e"
      using "1.prems" True by (intro keysInOrder_snoc nth_notin_take)
    then have "keysInOrder (take (next_index ?e) ds) ?e"
      using True by (simp add: take_Suc_conv_app_nth)
    moreover have "next_index ?e \<le> length ds" using True by simp
    ultimately have "keysInOrder ds (seedLoop ds ?e)"
      using "1.IH" [OF True "1.prems"(1,2)] by blast
    then show ?thesis using True by (subst seedLoop.simps) simp
  next
    case False
    then show ?thesis using "1.prems" by (subst seedLoop.simps) simp
  qed
qed

lemma new_Encoder_keys:
  "distinct seed \<Longrightarrow> list_all ordinary seed \<Longrightarrow> keysInOrder seed (new_Encoder seed prog)"
  unfolding new_Encoder_def by (rule seedLoop_keys) (simp_all add: keysInOrder_def)

lemma keepsEncoderD: "keepsEncoder m \<Longrightarrow> fst (snd (m (enc, buf))) = enc"
  by (simp add: keepsEncoder_def)

lemma keepsEncoder_writeOp [simp]: "keepsEncoder (writeOp c)"
  by (simp add: keepsEncoder_def)

lemma keepsEncoder_writes [simp]:
  "keepsEncoder (writeUint8 b)" "keepsEncoder (writeVarint32 n)"
  "keepsEncoder (writeVarint32ZigZag v)" "keepsEncoder (writeVarint64ZigZag l)"
  "keepsEncoder (writeVString s)" "keepsEncoder (append_bytes bs)"
  "keepsEncoder (writeFloat32 v)" "keepsEncoder (writeFloat64 v)" "keepsEncoder skip"
  by (simp_all add: writeUint8_def writeVarint32_def writeVarint32ZigZag_def
      writeVarint64ZigZag_def writeVString_def append_bytes_def)
     (simp_all add: keepsEncoder_def writeFloat32_def writeFloat64_def skip_def)

lemma keepsEncoder_andThen [simp]:
  assumes "keepsEncoder m" "keepsEncoder k"
  shows "keepsEncoder (andThen m k)"
  unfolding keepsEncoder_def
proof (intro allI)
  fix enc buf
  obtain r enc' buf' where m: "m (enc, buf) = (r, (enc', buf'))" by (metis prod.exhaust)
  then have "enc' = enc" using keepsEncoderD [OF assms(1), of enc buf] by simp
  then show "fst (snd (andThen m k (enc, buf))) = enc"
    using m keepsEncoderD [OF assms(2), of enc buf'] by (cases r) (simp_all add: andThen_def)
qed

lemma keepsEncoder_encodeString [simp]: "keepsEncoder (encodeString P val)"
  unfolding keepsEncoder_def
proof (intro allI)
  fix enc buf
  show "fst (snd (encodeString P val (enc, buf))) = enc"
    by (cases "lookup enc val")
       (auto simp: encodeString_def keepsEncoderD split: option.splits)
qed

lemma keepsEncoder_encodeNumber [simp]: "keepsEncoder (encodeNumber P val)"
  by (simp add: encodeNumber_def Let_def)

lemma dictGrowsD:
  "dictGrows m \<Longrightarrow> keysInOrder ks enc \<Longrightarrow> m (enc, buf) = (r, (enc', buf')) \<Longrightarrow>
   \<exists>added. keysInOrder (ks @ added) enc'"
  unfolding dictGrows_def by (metis fst_conv snd_conv)

lemma keepsEncoder_dictGrows: "keepsEncoder m \<Longrightarrow> dictGrows m"
  unfolding dictGrows_def keepsEncoder_def by (metis append_Nil2)

lemma dictGrows_andThen:
  assumes "dictGrows m" "dictGrows k"
  shows "dictGrows (andThen m k)"
  unfolding dictGrows_def
proof (intro allI impI)
  fix ks enc buf
  assume ks: "keysInOrder ks enc"
  obtain r enc' buf' where m: "m (enc, buf) = (r, (enc', buf'))" by (metis prod.exhaust)
  from dictGrowsD [OF assms(1) ks m] obtain a1 where a1: "keysInOrder (ks @ a1) enc'" ..
  show "\<exists>added. keysInOrder (ks @ added) (fst (snd (andThen m k (enc, buf))))"
  proof (cases r)
    case (Inl e)
    then show ?thesis using m a1 by (auto simp: andThen_def)
  next
    case (Inr u)
    obtain r2 enc2 buf2 where k: "k (enc', buf') = (r2, (enc2, buf2))" by (metis prod.exhaust)
    from dictGrowsD [OF assms(2) a1 k] obtain a2 where "keysInOrder ((ks @ a1) @ a2) enc2" ..
    then have "keysInOrder (ks @ (a1 @ a2)) enc2" by simp
    then show ?thesis using m k Inr by (auto simp: andThen_def)
  qed
qed

lemma dictGrows_tryCatch:
  assumes "dictGrows m" "dictGrows h"
  shows "dictGrows (tryCatch m h)"
  unfolding dictGrows_def
proof (intro allI impI)
  fix ks enc buf
  assume ks: "keysInOrder ks enc"
  obtain r enc' buf' where m: "m (enc, buf) = (r, (enc', buf'))" by (metis prod.exhaust)
  from dictGrowsD [OF assms(1) ks m] obtain a1 where a1: "keysInOrder (ks @ a1) enc'" ..
  show "\<exists>added. keysInOrder (ks @ added) (fst (snd (tryCatch m h (enc, buf))))"
  proof (cases r)
    case (Inr u)
    then show ?thesis using m a1 by (auto simp: tryCatch_def)
  next
    case (Inl e)
    obtain r2 enc2 buf2 where k: "h (enc', buf') = (r2, (enc2, buf2))" by (metis prod.exhaust)
    from dictGrowsD [OF assms(2) a1 k] obtain a2 where "keysInOrder ((ks @ a1) @ a2) enc2" ..
    then have "keysInOrder (ks @ (a1 @ a2)) enc2" by simp
    then show ?thesis using m k Inl by (auto simp: tryCatch_def)
  qed
qed

lemma dictGrows_encodeKey:
  assumes "ordinary key"
  shows "dictGrows (encodeKey P ex key)"
  unfolding dictGrows_def
proof (intro allI impI)
  fix ks enc buf
  assume ks: "keysInOrder ks enc"
  have l: "lookup enc key = Inr (dict enc key)"
    by (rule lookup_plain) (rule keysInOrder_plain [OF ks])
  show "\<exists>added. keysInOrder (ks @ added) (fst (snd (encodeKey P ex key (enc, buf))))"
  proof (cases "dict enc key")
    case (Some i)
    then have "fst (snd (encodeKey P ex key (enc, buf))) = enc"
      by (simp add: encodeKey_def l keepsEncoderD)
    then show ?thesis using ks by (metis append_Nil2)
  next
    case None
    show ?thesis
    proof (cases "progressive enc \<and> \<not> ex")
      case True
      let ?e = "enc\<lparr>dict := store (dict enc) key (next_index enc),
                     next_index := next_index enc + 1\<rparr>"
      have "fst (snd (encodeKey P ex key (enc, buf))) = ?e"
        using None True by (simp add: encodeKey_def l keepsEncoderD)
      moreover have "keysInOrder (ks @ [key]) ?e"
        using ks None assms by (intro keysInOrder_snoc) (simp_all add: keysInOrder_None)
      ultimately show ?thesis by metis
    next
      case False
      then have "fst (snd (encodeKey P ex key (enc, buf))) = enc"
        using None by (auto simp: encodeKey_def l keepsEncoderD)
      then show ?thesis using ks by (metis append_Nil2)
    qed
  qed
qed

lemma dictGrows_encodeValue:
  "ordinaryKeys v \<Longrightarrow> dictGrows (encodeValue P v ex)"
  "ordinaryElements vs \<Longrightarrow> dictGrows (encodeElements P vs)"
  "ordinaryFields props \<Longrightarrow> dictGrows (encodeObject P props other ex)"
  "ordinaryFields props \<Longrightarrow> dictGrows (encodeFields P ex props)"
  by (induction P v ex and P vs and P props other ex and P ex props
      rule: encodeValue_encodeElements_encodeObject_encodeFields.induct)
     (simp_all add: Let_def keepsEncoder_dictGrows dictGrows_andThen dictGrows_tryCatch
        dictGrows_encodeKey)

lemma encode_encoder:
  "fst (snd (encode P json bufArg e)) = fst (snd (encodeValue P json False (e, LE (target bufArg))))"
  by (cases bufArg) (auto simp: encode_def target_def Let_def split: prod.splits sum.splits)

lemma encode_grows:
  assumes "keysInOrder ks e" "ordinaryKeys json"
  shows "\<exists>added. keysInOrder (ks @ added) (fst (snd (encode P json bufArg e)))"
  using dictGrows_encodeValue(1) [OF assms(2), of P False] assms(1)
  unfolding dictGrows_def encode_encoder by blast

lemma session_grows:
  "keysInOrder ks e \<Longrightarrow> ordinaryCalls calls \<Longrightarrow>
   \<exists>added. keysInOrder (ks @ added) (session P calls e)"
proof (induction calls arbitrary: ks e)
  case Nil
  then show ?case by (metis append_Nil2 session.simps(1))
next
  case (Cons c calls)
  obtain json bufArg where c: "c = (json, bufArg)" by (cases c)
  have o: "ordinaryKeys json" "ordinaryCalls calls" using Cons.prems(2) by (simp_all add: c)
  from encode_grows [OF Cons.prems(1) o(1)] obtain a1
    where "keysInOrder (ks @ a1) (fst (snd (encode P json bufArg e)))" ..
  from Cons.IH [OF this o(2)] obtain a2
    where "keysInOrder ((ks @ a1) @ a2) (session P calls (fst (snd (encode P json bufArg e))))" ..
  then show ?case by (auto simp: c intro: exI [of _ "a1 @ a2"])
qed

lemma session_append: "session P (xs @ ys) e = session P ys (session P xs e)"
  by (induction xs arbitrary: e) auto

lemma encodeKey_known:
  "dict e ''hasOwnProperty'' = None \<Longrightarrow> dict e key = Some n \<Longrightarrow>
   encodeKey P excluded key (e, buf) = andThen (writeUint8 (STRING_GET P)) (writeVarint32 n) (e, buf)"
  by (simp add: encodeKey_def lookup_plain)

lemma encode_known_key:
  assumes "dict e ''hasOwnProperty'' = None" "dict e key = Some n"
  shows "encode P (JObject [(key, JNull)] JUndefined) None e =
     (Inr (), (e, finish None (wrote (target None)
        [WriteUint8 (OBJECT P), WriteVarint32 1, WriteUint8 (STRING_GET P), WriteVarint32 n,
         WriteUint8 (NULL P)])))"
  by (rule encode_ok) (simp add: assms encodeKey_accepting accepting_writes andThen_Inr)

subsection \<open>The key names \<open>__proto__\<close> and \<open>hasOwnProperty\<close>\<close>

text \<open>
  The dictionary is a plain object. A seed string \<open>__proto__\<close> takes an index and is not stored;
  as the key of an object it is written with StringAdd at every encoding, and takes a new
  index each time. Once the key \<open>hasOwnProperty\<close> is stored, every lookup throws.
\<close>

lemma proto_seed_not_stored:
  "new_Encoder [''__proto__''] prog = \<lparr>dict = Map.empty, next_index = 1, progressive = prog\<rparr>"
  by (simp add: new_Encoder_def seedLoop.simps store_def)

lemma proto_key_added_again:
  "encode examplePlatform (JObject [(''__proto__'', JNull)] JUndefined) None
     \<lparr>dict = Map.empty, next_index = n, progressive = True\<rparr> =
   (Inr (), (\<lparr>dict = Map.empty, next_index = n + 1, progressive = True\<rparr>,
      finish None (wrote (target None)
        [WriteUint8 246, WriteVarint32 1, WriteUint8 253, WriteVString ''__proto__'',
         WriteUint8 240])))"
  by (rule encode_ok)
     (simp add: readSentinel_def encodeKey_accepting accepting_writes andThen_Inr store_def
        examplePlatform_def)

lemma hasOwnProperty_stops_lookups:
  "dict e ''hasOwnProperty'' = Some i \<Longrightarrow>
   encodeKey P excluded key (e, buf) = (Inl TypeError, (e, buf))"
  "dict e ''hasOwnProperty'' = Some i \<Longrightarrow> val \<noteq> [] \<Longrightarrow>
   encodeValue P (JString val) excluded (e, buf) = (Inl TypeError, (e, buf))"
  by (simp_all add: encodeKey_def encodeString_def lookup_TypeError)

text \<open>
  C1, as stated, fails for a seed list with a repeated string. Seeded with \<open>["a", "a"]\<close>, the
  constructor stores \<open>"a"\<close> at index 0 and then again at index 1, and the counter stands at 2:
  the first distinct key has index 1, and the second distinct key, \<open>"b"\<close>, added by a
  progressive encoding, gets index 2. Encoding \<open>{a: null, b: null}\<close> writes StringGet with
  index 1 for \<open>"a"\<close>.
\<close>

theorem dictionary_indices_counterexample:
  "dict (new_Encoder [''a'', ''a''] True) ''a'' = Some 1
   \<and> next_index (new_Encoder [''a'', ''a''] True) = 2
   \<and> encode examplePlatform (JObject [(''a'', JNull), (''b'', JNull)] JUndefined) None
       (new_Encoder [''a'', ''a''] True) =
     (Inr (), (\<lparr>dict = [''a'' \<mapsto> 1, ''b'' \<mapsto> 2], next_index = 3, progressive = True\<rparr>,
        finish None (wrote (target None)
          [WriteUint8 246, WriteVarint32 2, WriteUint8 254, WriteVarint32 1, WriteUint8 240,
           WriteUint8 253, WriteVString ''b'', WriteUint8 240])))"
proof -
  have n: "new_Encoder [''a'', ''a''] True =
      \<lparr>dict = [''a'' \<mapsto> 1], next_index = 2, progressive = True\<rparr>"
    by (simp add: new_Encoder_def seedLoop.simps store_def numeral_2_eq_2)
  have "encode examplePlatform (JObject [(''a'', JNull), (''b'', JNull)] JUndefined) None
       (new_Encoder [''a'', ''a''] True) =
     (Inr (), (\<lparr>dict = [''a'' \<mapsto> 1, ''b'' \<mapsto> 2], next_index = 3, progressive = True\<rparr>,
        finish None (wrote (target None)
          [WriteUint8 246, WriteVarint32 2, WriteUint8 254, WriteVarint32 1, WriteUint8 240,
           WriteUint8 253, WriteVString ''b'', WriteUint8 240])))"
    by (rule encode_ok)
       (simp add: n readSentinel_def encodeKey_accepting accepting_writes andThen_Inr store_def
          examplePlatform_def numeral_2_eq_2)
  then show ?thesis by (simp add: n)
qed

text \<open>
  C1, amended: for every encoder seeded with pairwise distinct strings (or with none), when
  neither a seed string nor a key of any object in the encoded values is named \<open>__proto__\<close> or
  \<open>hasOwnProperty\<close>: after any sequence of \<open>encode\<close> calls the keys of the dictionary are the
  seed strings in list order followed by the keys added since, in the order they were added;
  the key at position \<open>n\<close> of that list (counted from 0) has index \<open>n\<close>; after any further
  calls it still has, while later keys follow it; and encoding it as the key of an object then
  writes StringGet followed by that index.
\<close>

theorem dictionary_indices:
  assumes "distinct seed" and "list_all ordinary seed"
    and "ordinaryCalls calls" and "ordinaryCalls further"
    and "e = session P calls (new_Encoder seed prog)"
    and "e' = session P further e"
  shows "\<exists>added later.
           keysInOrder (seed @ added) e \<and> keysInOrder (seed @ added @ later) e'
           \<and> (\<forall>n < length (seed @ added).
                 dict e ((seed @ added) ! n) = Some n
               \<and> dict e' ((seed @ added) ! n) = Some n
               \<and> encodeKey P excluded ((seed @ added) ! n) (e', buf) =
                   andThen (writeUint8 (STRING_GET P)) (writeVarint32 n) (e', buf)
               \<and> encode P (JObject [((seed @ added) ! n, JNull)] JUndefined) None e' =
                   (Inr (), (e', finish None (wrote (target None)
                      [WriteUint8 (OBJECT P), WriteVarint32 1, WriteUint8 (STRING_GET P),
                       WriteVarint32 n, WriteUint8 (NULL P)]))))"
proof -
  from session_grows [OF new_Encoder_keys [OF assms(1,2)] assms(3), of P prog]
  obtain added where a: "keysInOrder (seed @ added) e" unfolding assms(5) ..
  from session_grows [OF a assms(4), of P]
  obtain later where l: "keysInOrder ((seed @ added) @ later) e'" unfolding assms(6) ..
  note p = keysInOrder_plain [OF l]
  have "dict e ((seed @ added) ! n) = Some n
      \<and> dict e' ((seed @ added) ! n) = Some n
      \<and> encodeKey P excluded ((seed @ added) ! n) (e', buf) =
          andThen (writeUint8 (STRING_GET P)) (writeVarint32 n) (e', buf)
      \<and> encode P (JObject [((seed @ added) ! n, JNull)] JUndefined) None e' =
          (Inr (), (e', finish None (wrote (target None)
             [WriteUint8 (OBJECT P), WriteVarint32 1, WriteUint8 (STRING_GET P),
              WriteVarint32 n, WriteUint8 (NULL P)])))"
    if n: "n < length (seed @ added)" for n
  proof -
    have 1: "dict e ((seed @ added) ! n) = Some n"
      using keysInOrder_lookup [OF a n] .
    have "n < length ((seed @ added) @ later)" using n by simp
    moreover have "((seed @ added) @ later) ! n = (seed @ added) ! n"
      using n by (simp only: nth_append if_True)
    ultimately have 2: "dict e' ((seed @ added) ! n) = Some n"
      using keysInOrder_lookup [OF l, of n] by simp
    show ?thesis
      using 1 2 encodeKey_known [OF p 2] encode_known_key [OF p 2] by blast
  qed
  then show ?thesis using a l by (intro exI [of _ added] exI [of _ later]) simp
qed

theorem dictionary_indices_witness:
  "distinct [''x''] \<and> list_all ordinary [''x'']
   \<and> ordinaryCalls [(JObject [(''a'', JNull)] JUndefined, None)]
   \<and> ordinaryCalls [(JObject [(''a'', JNull), (''b'', JNull)] JUndefined, None)]
   \<and> \<lparr>dict = [''x'' \<mapsto> 0, ''a'' \<mapsto> 1], next_index = 2, progressive = True\<rparr>
       = session examplePlatform [(JObject [(''a'', JNull)] JUndefined, None)]
           (new_Encoder [''x''] True)
   \<and> \<lparr>dict = [''x'' \<mapsto> 0, ''a'' \<mapsto> 1, ''b'' \<mapsto> 2], next_index = 3, progressive = True\<rparr>
       = session examplePlatform [(JObject [(''a'', JNull), (''b'', JNull)] JUndefined, None)]
           \<lparr>dict = [''x'' \<mapsto> 0, ''a'' \<mapsto> 1], next_index = 2, progressive = True\<rparr>
   \<and> (\<exists>added later.
         keysInOrder ([''x''] @ added)
           \<lparr>dict = [''x'' \<mapsto> 0, ''a'' \<mapsto> 1], next_index = 2, progressive = True\<rparr>
       \<and> keysInOrder ([''x''] @ added @ later)
           \<lparr>dict = [''x'' \<mapsto> 0, ''a'' \<mapsto> 1, ''b'' \<mapsto> 2], next_index = 3, progressive = True\<rparr>)"
proof -
  have n: "new_Encoder [''x''] True = \<lparr>dict = [''x'' \<mapsto> 0], next_index = 1, progressive = True\<rparr>"
    by (simp add: new_Encoder_def seedLoop.simps store_def)
  have 1: "encode examplePlatform (JObject [(''a'', JNull)] JUndefined) None
        (new_Encoder [''x''] True) =
      (Inr (), (\<lparr>dict = [''x'' \<mapsto> 0, ''a'' \<mapsto> 1], next_index = 2, progressive = True\<rparr>,
         finish None (wrote (target None)
           [WriteUint8 246, WriteVarint32 1, WriteUint8 253, WriteVString ''a'', WriteUint8 240])))"
    by (rule encode_ok)
       (simp add: n readSentinel_def encodeKey_accepting accepting_writes andThen_Inr store_def
          examplePlatform_def numeral_2_eq_2)
  have 2: "encode examplePlatform (JObject [(''a'', JNull), (''b'', JNull)] JUndefined) None
        \<lparr>dict = [''x'' \<mapsto> 0, ''a'' \<mapsto> 1], next_index = 2, progressive = True\<rparr> =
      (Inr (), (\<lparr>dict = [''x'' \<mapsto> 0, ''a'' \<mapsto> 1, ''b'' \<mapsto> 2], next_index = 3, progressive = True\<rparr>,
         finish None (wrote (target None)
           [WriteUint8 246, WriteVarint32 2, WriteUint8 254, WriteVarint32 1, WriteUint8 240,
            WriteUint8 253, WriteVString ''b'', WriteUint8 240])))"
    by (rule encode_ok)
       (simp add: readSentinel_def encodeKey_accepting accepting_writes andThen_Inr store_def
          examplePlatform_def numeral_2_eq_2)
  have d: "distinct [''x'']" "list_all ordinary [''x'']" by (simp_all add: ordinary_def)
  have o: "ordinaryCalls [(JObject [(''a'', JNull)] JUndefined, None)]"
    "ordinaryCalls [(JObject [(''a'', JNull), (''b'', JNull)] JUndefined, None)]"
    by (simp_all add: ordinary_def)
  have e: "\<lparr>dict = [''x'' \<mapsto> 0, ''a'' \<mapsto> 1], next_index = 2, progressive = True\<rparr>
       = session examplePlatform [(JObject [(''a'', JNull)] JUndefined, None)]
           (new_Encoder [''x''] True)"
    by (simp only: session.simps 1 fst_conv snd_conv)
  have e': "\<lparr>dict = [''x'' \<mapsto> 0, ''a'' \<mapsto> 1, ''b'' \<mapsto> 2], next_index = 3, progressive = True\<rparr>
       = session examplePlatform [(JObject [(''a'', JNull), (''b'', JNull)] JUndefined, None)]
           \<lparr>dict = [''x'' \<mapsto> 0, ''a'' \<mapsto> 1], next_index = 2, progressive = True\<rparr>"
    by (simp only: session.simps 2 fst_conv snd_conv)
  from dictionary_indices [OF d o e e']
  have "\<exists>added later.
         keysInOrder ([''x''] @ added)
           \<lparr>dict = [''x'' \<mapsto> 0, ''a'' \<mapsto> 1], next_index = 2, progressive = True\<rparr>
       \<and> keysInOrder ([''x''] @ added @ later)
           \<lparr>dict = [''x'' \<mapsto> 0, ''a'' \<mapsto> 1, ''b'' \<mapsto> 2], next_index = 3, progressive = True\<rparr>"
    by blast
  with d o e e' show ?thesis by blast
qed

section \<open>Integers and the signed 32-bit range\<close>

text \<open>
  Within the signed 32-bit range the Integer form is exact: the zigzag mapping is undone by
  \<open>zigZagDecode32\<close>, the reader collects the bytes the writer produced, and so the payload
  decodes back to the value.
\<close>

lemma signed_drop_bit_31:
  fixes w :: "32 word"
  shows "signed_drop_bit 31 w = (if bit w 31 then - 1 else 0)"
proof (rule bit_word_eqI)
  fix n assume "n < LENGTH(32)"
  then have n: "n < 32" by simp
  have "bit (signed_drop_bit 31 w) n = bit w 31"
    using n by (cases "n = 0") (simp_all add: bit_signed_drop_bit_iff)
  then show "bit (signed_drop_bit 31 w) n = bit (if bit w 31 then - 1 else 0 :: 32 word) n"
    using n by (simp add: bit_simps)
qed

lemma bit_times_2:
  fixes w :: "32 word"
  shows "bit (w * 2) n = (n \<noteq> 0 \<and> n < 32 \<and> bit w (n - 1))"
proof -
  have "w * 2 = push_bit 1 w" by simp
  then have "bit (w * 2) n = bit (push_bit 1 w) n" by (rule arg_cong)
  also have "\<dots> = (1 \<le> n \<and> n < 32 \<and> bit w (n - 1))"
    by (simp only: bit_push_bit_iff possible_bit_word) simp
  finally show ?thesis by auto
qed

lemma zigzag_word_round_trip:
  fixes w :: "32 word"
  shows "drop_bit 1 (push_bit 1 w XOR signed_drop_bit 31 w)
           XOR - ((push_bit 1 w XOR signed_drop_bit 31 w) AND 1) = w"
proof (cases "bit w 31")
  case True
  have a: "NOT (w * 2) AND 1 = 1"
    by (rule bit_word_eqI) (auto simp: bit_simps bit_times_2)
  have "NOT (drop_bit 1 (NOT (w * 2))) = w"
  proof (rule bit_word_eqI)
    fix n assume "n < LENGTH(32)"
    then show "bit (NOT (drop_bit 1 (NOT (w * 2)))) n = bit w n"
      using True by (cases "n = 31") (auto simp: bit_simps bit_times_2)
  qed
  then show ?thesis
    unfolding signed_drop_bit_31 using True by (simp add: a)
next
  case False
  have a: "w * 2 AND 1 = 0"
    by (rule bit_word_eqI) (auto simp: bit_simps bit_times_2)
  have "drop_bit 1 (w * 2) = w"
  proof (rule bit_word_eqI)
    fix n assume "n < LENGTH(32)"
    then show "bit (drop_bit 1 (w * 2)) n = bit w n"
      using False by (cases "n = 31") (auto simp: bit_simps bit_times_2)
  qed
  then show ?thesis
    unfolding signed_drop_bit_31 using False by (simp add: a)
qed

lemma bit_0x7f: "bit (0x7f :: int) n \<longleftrightarrow> n < 7"
proof -
  have "(0x7f :: int) = mask 7" by (simp add: mask_eq_exp_minus_1)
  then have "bit (0x7f :: int) n = bit (mask 7 :: int) n" by (rule arg_cong)
  also have "\<dots> = (n < 7)" by (simp only: bit_mask_iff) simp
  finally show ?thesis .
qed

lemma bit_0x80: "bit (0x80 :: int) n \<longleftrightarrow> n = 7"
proof -
  have "(0x80 :: int) = 2 ^ 7" by simp
  then have "bit (0x80 :: int) n = bit (2 ^ 7 :: int) n" by (rule arg_cong)
  also have "\<dots> = (n = 7)" by (simp only: bit_exp_iff) auto
  finally show ?thesis .
qed

lemma low7_high:
  fixes v :: "32 word"
  shows "(v AND 0x7f) OR push_bit 7 (drop_bit 7 v) = v"
proof (rule bit_word_eqI)
  fix n assume "n < LENGTH(32)"
  then show "bit (v AND 0x7f OR push_bit 7 (drop_bit 7 v)) n = bit v n"
    by (cases "n < 7") (auto simp: bit_simps bit_0x7f)
qed

lemma byte_low7:
  fixes x :: "32 word"
  shows "word_of_nat (unat x AND 0x7f) = x AND 0x7f"
proof -
  have "unat x AND 0x7f = unat (x AND 0x7f)" by (simp add: unsigned_and_eq)
  then show ?thesis by simp
qed

lemma byte_high:
  fixes x :: "32 word"
  shows "(unat x AND 0x80 = 0) = (x AND 0x80 = 0)"
proof -
  have "unat x AND 0x80 = unat (x AND 0x80)" by (simp add: unsigned_and_eq)
  then show ?thesis by (simp add: unat_eq_0)
qed

lemma readVarint32_varint32:
  "c \<le> 4 \<Longrightarrow> drop_bit (32 - 7 * c) v = 0 \<Longrightarrow>
   readVarint32 c val (varint32 v) = Some (val OR push_bit (7 * c) v)"
proof (induction v arbitrary: c val rule: varint32.induct)
  case (1 v)
  show ?case
  proof (cases "0x80 \<le> v")
    case True
    let ?x = "(v AND 0x7f) OR 0x80"
    have c3: "c \<le> 3"
    proof (rule ccontr)
      assume "\<not> c \<le> 3"
      with "1.prems"(1) have "c = 4" by simp
      with "1.prems"(2) have "drop_bit 4 v = 0" by simp
      then have "unat (drop_bit 4 v) = 0" by (simp only: unsigned_0)
      then have "unat v div 2 ^ 4 = 0" by (simp add: drop_bit_eq_div unat_div)
      then have "unat v < 16" by simp
      moreover have "128 \<le> unat v" using True by (simp add: word_le_nat_alt)
      ultimately show False by simp
    qed
    have x7: "?x AND 0x7f = v AND 0x7f"
      by (rule bit_word_eqI) (auto simp: bit_simps bit_0x7f bit_0x80)
    have x8: "?x AND 0x80 \<noteq> 0"
    proof -
      have "bit (?x AND 0x80) 7" by (simp add: bit_simps bit_0x7f bit_0x80)
      then show ?thesis by auto
    qed
    have d: "drop_bit (32 - 7 * (c + 1)) (drop_bit 7 v) = 0"
    proof -
      have "32 - 7 * (c + 1) + 7 = 32 - 7 * c" using c3 by simp
      then show ?thesis using "1.prems"(2) by (simp only: drop_bit_drop_bit)
    qed
    have "readVarint32 c val (varint32 v) =
          readVarint32 (c + 1) (val OR push_bit (7 * c) (v AND 0x7f)) (varint32 (drop_bit 7 v))"
      using True c3 by (subst varint32.simps) (simp add: byte_low7 byte_high x7 x8 Let_def)
    also have "\<dots> = Some ((val OR push_bit (7 * c) (v AND 0x7f))
                          OR push_bit (7 * (c + 1)) (drop_bit 7 v))"
      using c3 by (intro "1.IH" True d) simp
    also have "(val OR push_bit (7 * c) (v AND 0x7f)) OR push_bit (7 * (c + 1)) (drop_bit 7 v)
             = val OR push_bit (7 * c) ((v AND 0x7f) OR push_bit 7 (drop_bit 7 v))"
      by (simp add: push_bit_or push_bit_push_bit ac_simps)
    finally show ?thesis by (simp only: low7_high)
  next
    case False
    then have small: "v < 2 ^ 7" by simp
    have "v AND mask 7 = v"
      using small by (rule less_mask_eq)
    then have v7: "v AND 0x7f = v"
      by (simp add: mask_eq_exp_minus_1)
    have "(v AND 0x7f) AND 0x80 = 0"
      by (rule bit_word_eqI) (auto simp: bit_simps bit_0x7f bit_0x80)
    then have v8: "v AND 0x80 = 0"
      by (simp only: v7)
    show ?thesis
      using False "1.prems"(1)
      by (subst varint32.simps) (simp add: byte_low7 byte_high v7 v8)
  qed
qed

lemma sint_word_of_int_in_range:
  assumes "- (2 ^ 31) \<le> i" "i < 2 ^ 31"
  shows "sint (word_of_int i :: 32 word) = i"
proof -
  have "sint (word_of_int i :: 32 word) = signed_take_bit (LENGTH(32) - 1) i"
    by (rule sint_sbintrunc')
  also have "\<dots> = i"
    using assms by (simp add: signed_take_bit_int_eq_self)
  finally show ?thesis .
qed

lemma zigzag_varint_in_range:
  assumes "- (2 ^ 31) \<le> i" "i < 2 ^ 31"
  shows "readVarint32ZigZag (writeVarint32ZigZagBytes (Finite (of_int i))) = Some i"
proof -
  let ?w = "word_of_int i :: 32 word"
  let ?z = "push_bit 1 ?w XOR signed_drop_bit 31 ?w"
  have e: "zigZagEncode32 (Finite (of_int i)) = unat ?z"
    by (simp add: zigZagEncode32_def ToInt32_def Let_def)
  have b: "writeVarint32ZigZagBytes (Finite (of_int i)) = varint32 ?z"
    unfolding writeVarint32ZigZagBytes_def e by simp
  have r: "readVarint32 0 0 (varint32 ?z) = Some (0 OR push_bit (7 * 0) ?z)"
    by (rule readVarint32_varint32) simp_all
  have d: "zigZagDecode32 ?z = sint ?w"
    unfolding zigZagDecode32_def by (simp only: zigzag_word_round_trip)
  have r': "readVarint32 0 0 (varint32 ?z) = Some ?z"
    using r by simp
  show ?thesis
    unfolding readVarint32ZigZag_def b r'
    by (simp only: option.map d sint_word_of_int_in_range [OF assms])
qed

lemma integer_in_int32:
  assumes "- (2 ^ 31) \<le> i" and "i < 2 ^ 31" and "MAX_T P < zigZagEncode32 (Finite (of_int i))"
    and "accepting (target bufArg)"
  shows "encode P (JNumber (Finite (of_int i))) bufArg enc =
           (Inr (), (enc, finish bufArg (wrote (target bufArg)
              [WriteUint8 (INTEGER P), WriteVarint32ZigZag (Finite (of_int i))])))
         \<and> readVarint32ZigZag (writeVarint32ZigZagBytes (Finite (of_int i))) = Some i"
proof -
  have "\<bar>of_int i :: real\<bar> < 10 ^ 21"
  proof -
    have "\<bar>i\<bar> < 10 ^ 21" using assms(1,2) by simp
    then have "(of_int \<bar>i\<bar> :: real) < of_int (10 ^ 21)" by (simp only: of_int_less_iff)
    then show ?thesis by simp
  qed
  then have p: "strictEq (Finite (of_int i)) (parseInt (Finite (of_int i)))"
    by (simp only: integral_test) auto
  have "encodeValue P (JNumber (Finite (of_int i))) False (enc, LE (target bufArg)) =
      (Inr (), (enc, wrote (LE (target bufArg))
         [WriteUint8 (INTEGER P), WriteVarint32ZigZag (Finite (of_int i))]))"
    using assms(3,4) by (simp add: encodeNumber_def p Let_def accepting_writes andThen_Inr)
  from encode_ok [OF this] zigzag_varint_in_range [OF assms(1,2)] show ?thesis by simp
qed

subsection \<open>Outside the range\<close>

text \<open>
  C3 at \<open>v = 2147483648 = 2^31\<close>, an integral Number whose 32-bit zigzag encoding,
  \<open>4294967295\<close>, exceeds the threshold. The encoder writes tag Integer and calls
  \<open>writeVarint32ZigZag(v)\<close>, which converts \<open>v\<close> to the 32-bit integer \<open>-2147483648\<close>: the
  payload is the five bytes \<open>FF FF FF FF 0F\<close>, the very bytes written for \<open>-2147483648\<close>, and
  they decode to \<open>-2147483648\<close>, not to \<open>v\<close>.
\<close>

theorem integer_outside_int32:
  "zigZagEncode32 (Finite 2147483648) = 4294967295
   \<and> MAX_T examplePlatform = 239
   \<and> encode examplePlatform (JNumber (Finite 2147483648)) None (new_Encoder [] False) =
       (Inr (), (new_Encoder [] False, finish None (wrote (target None)
          [WriteUint8 248, WriteVarint32ZigZag (Finite 2147483648)])))
   \<and> writeVarint32ZigZagBytes (Finite 2147483648) = [255, 255, 255, 255, 15]
   \<and> writeVarint32ZigZagBytes (Finite (- 2147483648)) = [255, 255, 255, 255, 15]
   \<and> readVarint32ZigZag [255, 255, 255, 255, 15] = Some (- 2147483648)"
proof -
  have z: "zigZagEncode32 (Finite 2147483648) = 4294967295"
    by (simp add: zigZagEncode32_def ToInt32_def trunc_def)
  have z': "zigZagEncode32 (Finite (- 2147483648)) = 4294967295"
    by (simp add: zigZagEncode32_def ToInt32_def trunc_def)
  have v: "varint32 4294967295 = [255, 255, 255, 255, 15]"
    by (simp add: varint32.simps)
  have m: "MAX_T examplePlatform = 239" "INTEGER examplePlatform = 248"
    by (simp_all add: examplePlatform_def)
  have p: "strictEq (Finite 2147483648) (parseInt (Finite 2147483648))"
    by (simp add: parseInt.simps(1) strictEq_def trunc_def)
  have e: "encode examplePlatform (JNumber (Finite 2147483648)) None (new_Encoder [] False) =
       (Inr (), (new_Encoder [] False, finish None (wrote (target None)
          [WriteUint8 248, WriteVarint32ZigZag (Finite 2147483648)])))"
    by (rule encode_ok) (simp add: encodeNumber_def p z m accepting_writes andThen_Inr)
  have r: "readVarint32ZigZag [255, 255, 255, 255, 15] = Some (- 2147483648)"
    by (simp add: readVarint32ZigZag_def zigZagDecode32_def)
  show ?thesis
    by (simp add: z z' v m e r writeVarint32ZigZagBytes_def)
qed

end
